theory Spec2Isabelle
  imports Main "HOL-Library.Multiset" "HOL-Library.Product_Lexorder"
begin

section \<open>Data model of \<open>scheduler.py\<close>\<close>

text \<open>
  A \<open>Task\<close> object: the fields assigned by \<open>Task.__init__\<close>, in the order of the
  source.  Python integers are unbounded, hence \<open>int\<close>.  Task identifiers are the
  strings the callers pass (\<open>"T1"\<close>, the name typed into the form).
\<close>

record task =
  task_id :: string
  arrival_time :: int
  burst_time :: int
  remaining_time :: int
  deadline :: int
  period :: int
  absolute_deadline :: int
  start_time :: int
  completion_time :: int
  missed_deadline :: bool
  counter :: int

text \<open>
  \<open>Task.__init__(self, task_id, arrival_time, burst_time, deadline, period=0)\<close>.
  The body is eleven assignments and contains no \<open>raise\<close>: the constructor is total.
\<close>

definition Task_init :: "string \<Rightarrow> int \<Rightarrow> int \<Rightarrow> int \<Rightarrow> int \<Rightarrow> task" where
  "Task_init tid arrival burst dl per =
     \<lparr> task_id = tid,
       arrival_time = arrival,
       burst_time = burst,
       remaining_time = burst,
       deadline = dl,
       period = per,
       absolute_deadline = arrival + dl,
       start_time = - 1,
       completion_time = - 1,
       missed_deadline = False,
       counter = 0 \<rparr>"

text \<open>
  Exceptions that the scheduler code can raise: \<open>NotImplementedError\<close> is raised by the
  methods of the abstract base class, \<open>AttributeError\<close> is the missing \<open>push_back\<close> of the
  base class, \<open>TypeError\<close> is what Python raises when two heap tuples agree on their
  first three components and the comparison reaches the \<open>Task\<close> objects (which define
  no ordering), \<open>IndexError\<close> is \<open>heappop\<close> on an empty list.  \<open>InvalidTask\<close> occurs
  only in the specification text.
\<close>

datatype error = NotImplementedError | AttributeError | TypeError | IndexError | InvalidTask

text \<open>
  Task objects are mutable and shared between the caller's list, the ready queue and
  the list of completed tasks.  The store is the caller's list itself (after the
  in-place sort); a reference to a task is its index in that list.  Each element of
  the list is a distinct object.

  A ready-queue entry is the tuple \<open>(priority, arrival_time, _counter, task)\<close>.
\<close>

type_synonym entry = "int \<times> int \<times> int \<times> nat"

definition key :: "entry \<Rightarrow> int \<times> int \<times> int" where
  "key e = (case e of (p, a, c, r) \<Rightarrow> (p, a, c))"

definition ref :: "entry \<Rightarrow> nat" where
  "ref e = (case e of (p, a, c, r) \<Rightarrow> r)"

text \<open>
  Python's \<open><\<close> on two such tuples: the first position where the tuples differ decides;
  when priority, arrival time and counter are all equal, the task objects are
  compared: the same object makes the tuples equal (so \<open><\<close> is false), two different
  objects raise \<open>TypeError\<close>.
\<close>

fun entry_lt :: "entry \<Rightarrow> entry \<Rightarrow> error + bool" where
  "entry_lt (p, a, c, r) (p', a', c', r') =
     (if p \<noteq> p' then Inr (p < p')
      else if a \<noteq> a' then Inr (a < a')
      else if c \<noteq> c' then Inr (c < c')
      else if r = r' then Inr False
      else Inl TypeError)"

section \<open>The binary heap of \<open>heapq\<close>\<close>

text \<open>
  \<open>heapq._siftdown(heap, startpos, pos)\<close>: \<open>newitem = heap[pos]\<close> is carried up towards
  \<open>startpos\<close> while it is smaller than its parent at \<open>(pos - 1) >> 1\<close>.
\<close>

function siftdown_loop :: "entry list \<Rightarrow> nat \<Rightarrow> nat \<Rightarrow> entry \<Rightarrow> error + entry list" where
  "siftdown_loop heap startpos pos newitem =
     (if pos > startpos then
        (case entry_lt newitem (heap ! ((pos - 1) div 2)) of
           Inl e \<Rightarrow> Inl e
         | Inr b \<Rightarrow>
             if b then siftdown_loop (heap[pos := heap ! ((pos - 1) div 2)]) startpos
                         ((pos - 1) div 2) newitem
             else Inr (heap[pos := newitem]))
      else Inr (heap[pos := newitem]))"
  by pat_completeness auto
termination
  by (relation "measure (\<lambda>(heap, startpos, pos, newitem). pos)") auto

declare siftdown_loop.simps [simp del]

definition siftdown :: "entry list \<Rightarrow> nat \<Rightarrow> nat \<Rightarrow> error + entry list" where
  "siftdown heap startpos pos = siftdown_loop heap startpos pos (heap ! pos)"

text \<open>
  \<open>heapq._siftup(heap, pos)\<close>: the smaller child is moved up until a leaf is reached
  (the right child is taken when \<open>not heap[childpos] < heap[rightpos]\<close>); the loop
  returns the heap and the position of the leaf.
\<close>

function siftup_loop :: "entry list \<Rightarrow> nat \<Rightarrow> nat \<Rightarrow> error + (entry list \<times> nat)" where
  "siftup_loop heap pos childpos =
     (if childpos < length heap then
        (case (if childpos + 1 < length heap
               then (case entry_lt (heap ! childpos) (heap ! (childpos + 1)) of
                       Inl e \<Rightarrow> Inl e | Inr b \<Rightarrow> Inr (\<not> b))
               else Inr False) of
           Inl e \<Rightarrow> Inl e
         | Inr right \<Rightarrow>
             (let childpos' = (if right then childpos + 1 else childpos)
              in siftup_loop (heap[pos := heap ! childpos']) childpos' (2 * childpos' + 1)))
      else Inr (heap, pos))"
  by pat_completeness auto
termination
  by (relation "measure (\<lambda>(heap, pos, childpos). length heap - childpos)") auto

declare siftup_loop.simps [simp del]

definition siftup :: "entry list \<Rightarrow> nat \<Rightarrow> error + entry list" where
  "siftup heap pos =
     (case siftup_loop heap pos (2 * pos + 1) of
        Inl e \<Rightarrow> Inl e
      | Inr (heap', pos') \<Rightarrow> siftdown (heap'[pos' := heap ! pos]) pos pos')"

text \<open>\<open>heapq.heappush(heap, item)\<close>: append, then \<open>_siftdown(heap, 0, len(heap) - 1)\<close>.\<close>

definition heappush :: "entry list \<Rightarrow> entry \<Rightarrow> error + entry list" where
  "heappush heap item = siftdown (heap @ [item]) 0 (length heap)"

text \<open>
  \<open>heapq.heappop(heap)\<close>: \<open>lastelt = heap.pop()\<close> raises \<open>IndexError\<close> on an empty list;
  if the rest is not empty its root is returned and replaced by \<open>lastelt\<close>, which
  \<open>_siftup(heap, 0)\<close> then moves to its place.
\<close>

definition heappop :: "entry list \<Rightarrow> error + (entry \<times> entry list)" where
  "heappop heap =
     (if heap = [] then Inl IndexError
      else let lastelt = last heap; rest = butlast heap in
        if rest \<noteq> [] then
          (case siftup (rest[0 := lastelt]) 0 of
             Inl e \<Rightarrow> Inl e
           | Inr heap' \<Rightarrow> Inr (rest ! 0, heap'))
        else Inr (lastelt, rest))"

section \<open>The scheduler\<close>

text \<open>The fields of a \<open>Scheduler\<close> object, as \<open>Scheduler.__init__\<close> creates them.\<close>

record scheduler =
  time :: int
  ready_queue :: "entry list"
  history :: "(int \<times> int \<times> string) list"
  completed_tasks :: "nat list"
  missed_deadlines :: int
  task_counter :: int

definition Scheduler_init :: scheduler where
  "Scheduler_init =
     \<lparr> time = 0, ready_queue = [], history = [], completed_tasks = [],
       missed_deadlines = 0, task_counter = 0 \<rparr>"

text \<open>
  The class of the scheduler object: the abstract base class \<open>Scheduler\<close> or one of
  its two subclasses.
\<close>

datatype policy = Abstract | EDF | RMS

text \<open>
  The priority that \<open>add_task\<close> puts first in the heap tuple: the absolute deadline
  for EDF, and for RMS \<open>task.period if task.period > 0 else task.deadline\<close>.
\<close>

definition priority :: "policy \<Rightarrow> task \<Rightarrow> int" where
  "priority pol t =
     (case pol of
        EDF \<Rightarrow> absolute_deadline t
      | RMS \<Rightarrow> (if period t > 0 then period t else deadline t)
      | Abstract \<Rightarrow> 0)"

text \<open>
  \<open>add_task\<close>: the task gets the scheduler's counter, the counter is incremented, and
  the tuple is pushed.  The base class raises \<open>NotImplementedError\<close> instead of
  pushing.
\<close>

definition add_task :: "policy \<Rightarrow> scheduler \<Rightarrow> task list \<Rightarrow> nat \<Rightarrow> error + (scheduler \<times> task list)" where
  "add_task pol s ts r =
     (let t = (ts ! r)\<lparr>counter := task_counter s\<rparr>;
          ts' = ts[r := t];
          s' = s\<lparr>task_counter := task_counter s + 1\<rparr>
      in if pol = Abstract then Inl NotImplementedError
         else (case heappush (ready_queue s') (priority pol t, arrival_time t, counter t, r) of
                 Inl e \<Rightarrow> Inl e
               | Inr q \<Rightarrow> Inr (s'\<lparr>ready_queue := q\<rparr>, ts')))"

text \<open>
  \<open>get_next_task\<close>: \<open>None\<close> when the queue is empty, otherwise the task of the popped
  tuple.
\<close>

definition get_next_task :: "policy \<Rightarrow> scheduler \<Rightarrow> error + (nat option \<times> scheduler)" where
  "get_next_task pol s =
     (if pol = Abstract then Inl NotImplementedError
      else if ready_queue s = [] then Inr (None, s)
      else (case heappop (ready_queue s) of
              Inl e \<Rightarrow> Inl e
            | Inr (e, q) \<Rightarrow> Inr (Some (ref e), s\<lparr>ready_queue := q\<rparr>)))"

text \<open>\<open>push_back\<close> calls \<open>add_task\<close>; the base class has no such method.\<close>

definition push_back :: "policy \<Rightarrow> scheduler \<Rightarrow> task list \<Rightarrow> nat \<Rightarrow> error + (scheduler \<times> task list)" where
  "push_back pol s ts r =
     (if pol = Abstract then Inl AttributeError else add_task pol s ts r)"

lemma add_task_length:
  "add_task pol s ts r = Inr (s', ts') \<Longrightarrow> length ts' = length ts"
  by (auto simp: add_task_def Let_def split: if_splits sum.splits)

lemma add_task_time:
  "add_task pol s ts r = Inr (s', ts') \<Longrightarrow> time s' = time s"
  by (auto simp: add_task_def Let_def split: if_splits sum.splits)

text \<open>
  The inner loop of \<open>run\<close>:
  \<open>while task_idx < len(tasks) and tasks[task_idx].arrival_time <= self.time\<close>.
\<close>

function admit_arrivals ::
  "policy \<Rightarrow> scheduler \<Rightarrow> task list \<Rightarrow> nat \<Rightarrow> error + (scheduler \<times> task list \<times> nat)" where
  "admit_arrivals pol s ts task_idx =
     (if task_idx < length ts \<and> arrival_time (ts ! task_idx) \<le> time s then
        (case add_task pol s ts task_idx of
           Inl e \<Rightarrow> Inl e
         | Inr (s', ts') \<Rightarrow> admit_arrivals pol s' ts' (task_idx + 1))
      else Inr (s, ts, task_idx))"
  by pat_completeness auto
termination
proof (relation "measure (\<lambda>(pol, s, ts, task_idx). length ts - task_idx)")
  show "wf (measure (\<lambda>(pol, s, ts, task_idx). length ts - task_idx))"
    by simp
next
  fix pol :: policy and s :: scheduler and ts :: "task list" and task_idx :: nat
    and x :: "scheduler \<times> task list" and s' :: scheduler and ts' :: "task list"
  assume "task_idx < length ts \<and> arrival_time (ts ! task_idx) \<le> time s"
    and "add_task pol s ts task_idx = Inr x" and "(s', ts') = x"
  then have "length ts' = length ts" and "task_idx < length ts"
    using add_task_length [of pol s ts task_idx s' ts'] by auto
  then show "((pol, s', ts', task_idx + 1), (pol, s, ts, task_idx))
      \<in> measure (\<lambda>(pol, s, ts, task_idx). length ts - task_idx)"
    by simp
qed

declare admit_arrivals.simps [simp del]

text \<open>
  The branch \<open>if current_task:\<close> of the loop body: the start time is set on the first
  execution, the history entry is appended, one unit is executed; a task that reaches
  zero is completed (and flagged when it completes after its absolute deadline),
  any other task is pushed back.
\<close>

definition execute ::
  "policy \<Rightarrow> scheduler \<Rightarrow> task list \<Rightarrow> nat \<Rightarrow> error + (scheduler \<times> task list)" where
  "execute pol s ts r =
     (let t0 = ts ! r;
          t1 = (if start_time t0 = - 1 then t0\<lparr>start_time := time s\<rparr> else t0);
          s1 = s\<lparr>history := history s @ [(time s, time s + 1, task_id t1)]\<rparr>;
          t2 = t1\<lparr>remaining_time := remaining_time t1 - 1\<rparr>
      in if remaining_time t2 = 0 then
           (let t3 = t2\<lparr>completion_time := time s1 + 1\<rparr> in
            if completion_time t3 > absolute_deadline t3 then
              Inr (s1\<lparr>missed_deadlines := missed_deadlines s1 + 1,
                      completed_tasks := completed_tasks s1 @ [r]\<rparr>,
                   ts[r := t3\<lparr>missed_deadline := True\<rparr>])
            else
              Inr (s1\<lparr>completed_tasks := completed_tasks s1 @ [r]\<rparr>, ts[r := t3]))
         else push_back pol s1 (ts[r := t2]) r)"

text \<open>
  One iteration of \<open>while self.time < max_time\<close>: admission, selection, execution or
  an idle entry, and \<open>self.time += 1\<close>.  The state of the loop is the scheduler, the
  task objects and \<open>task_idx\<close>.
\<close>

definition run_step ::
  "policy \<Rightarrow> scheduler \<times> task list \<times> nat \<Rightarrow> error + (scheduler \<times> task list \<times> nat)" where
  "run_step pol st =
     (case st of (s, ts, task_idx) \<Rightarrow>
        (case admit_arrivals pol s ts task_idx of
           Inl e \<Rightarrow> Inl e
         | Inr (s1, ts1, task_idx1) \<Rightarrow>
             (case get_next_task pol s1 of
                Inl e \<Rightarrow> Inl e
              | Inr (current_task, s2) \<Rightarrow>
                  (case current_task of
                     Some r \<Rightarrow>
                       (case execute pol s2 ts1 r of
                          Inl e \<Rightarrow> Inl e
                        | Inr (s3, ts3) \<Rightarrow> Inr (s3\<lparr>time := time s3 + 1\<rparr>, ts3, task_idx1))
                   | None \<Rightarrow>
                       Inr (s2\<lparr>history := history s2 @ [(time s2, time s2 + 1, ''IDLE'')],
                               time := time s2 + 1\<rparr>, ts1, task_idx1)))))"

lemma admit_arrivals_time:
  "admit_arrivals pol s ts i = Inr (s', ts', i') \<Longrightarrow> time s' = time s"
proof (induction pol s ts i rule: admit_arrivals.induct)
  case (1 pol s ts task_idx)
  show ?case
  proof (cases "task_idx < length ts \<and> arrival_time (ts ! task_idx) \<le> time s")
    case True
    with "1.prems" obtain s1 ts1 where a: "add_task pol s ts task_idx = Inr (s1, ts1)"
      and r: "admit_arrivals pol s1 ts1 (task_idx + 1) = Inr (s', ts', i')"
      by (subst (asm) admit_arrivals.simps) (auto split: sum.splits)
    from "1.IH" [OF True a refl r] add_task_time [OF a] show ?thesis by simp
  next
    case False
    with "1.prems" show ?thesis by (subst (asm) admit_arrivals.simps) simp
  qed
qed

lemma get_next_task_time:
  "get_next_task pol s = Inr (cur, s') \<Longrightarrow> time s' = time s"
  by (auto simp: get_next_task_def split: if_splits sum.splits)

lemma execute_time:
  "execute pol s ts r = Inr (s', ts') \<Longrightarrow> time s' = time s"
  by (auto simp: execute_def push_back_def Let_def dest: add_task_time split: if_splits)

lemma run_step_time:
  assumes "run_step pol (s, ts, i) = Inr (s', ts', i')"
  shows "time s' = time s + 1"
proof -
  from assms obtain s1 ts1 i1 cur s2 where
    a: "admit_arrivals pol s ts i = Inr (s1, ts1, i1)" and
    g: "get_next_task pol s1 = Inr (cur, s2)"
    by (auto simp: run_step_def split: sum.splits)
  have t2: "time s2 = time s"
    using admit_arrivals_time [OF a] get_next_task_time [OF g] by simp
  show ?thesis
  proof (cases cur)
    case None
    with assms a g t2 show ?thesis by (auto simp: run_step_def)
  next
    case (Some r)
    with assms a g obtain s3 ts3 where e: "execute pol s2 ts1 r = Inr (s3, ts3)"
      and s': "s' = s3\<lparr>time := time s3 + 1\<rparr>"
      by (auto simp: run_step_def split: sum.splits)
    from execute_time [OF e] t2 s' show ?thesis by simp
  qed
qed

text \<open>
  \<open>while self.time < max_time\<close>.  The loop ends because every iteration that does not
  raise advances \<open>self.time\<close> by one.
\<close>

function run_loop ::
  "policy \<Rightarrow> scheduler \<times> task list \<times> nat \<Rightarrow> int \<Rightarrow> error + (scheduler \<times> task list \<times> nat)" where
  "run_loop pol st max_time =
     (if time (fst st) < max_time then
        (case run_step pol st of
           Inl e \<Rightarrow> Inl e
         | Inr st' \<Rightarrow> run_loop pol st' max_time)
      else Inr st)"
  by pat_completeness auto
termination
proof (relation "measure (\<lambda>(pol, st, max_time). nat (max_time - time (fst st)))")
  show "wf (measure (\<lambda>(pol, st, max_time). nat (max_time - time (fst st))))"
    by simp
next
  fix pol :: policy and st st' :: "scheduler \<times> task list \<times> nat" and max_time :: int
  assume lt: "time (fst st) < max_time" and step: "run_step pol st = Inr st'"
  obtain s ts i where st: "st = (s, ts, i)" by (cases st)
  obtain s' ts' i' where st': "st' = (s', ts', i')" by (cases st')
  from step st st' have "time s' = time s + 1" by (auto dest: run_step_time)
  with lt st st' show "((pol, st', max_time), (pol, st, max_time))
      \<in> measure (\<lambda>(pol, st, max_time). nat (max_time - time (fst st)))"
    by simp
qed

declare run_loop.simps [simp del]

text \<open>
  \<open>run(self, tasks, max_time=20)\<close>: \<open>tasks.sort(key=lambda x: x.arrival_time)\<close> sorts the
  caller's list in place (\<open>list.sort\<close> is stable, and so is \<open>sort_key\<close>), the loop
  starts with \<open>task_idx = 0\<close>, and \<open>self.history\<close> is returned.  The result of the
  model is the scheduler object and the caller's list as the call leaves them; the
  value returned to the caller is the \<open>history\<close> field of that scheduler.
\<close>

definition run :: "policy \<Rightarrow> scheduler \<Rightarrow> task list \<Rightarrow> int \<Rightarrow> error + (scheduler \<times> task list)" where
  "run pol s tasks max_time =
     (case run_loop pol (s, sort_key arrival_time tasks, 0) max_time of
        Inl e \<Rightarrow> Inl e
      | Inr (s', ts', task_idx) \<Rightarrow> Inr (s', ts'))"

section \<open>The callers and the specification\<close>

text \<open>
  The callers build the task list by calling the constructor once per task
  (\<open>run_simulation\<close> in \<open>GUI.py\<close>, the tests), with the constructor's five arguments.
\<close>

definition make_tasks :: "(string \<times> int \<times> int \<times> int \<times> int) list \<Rightarrow> task list" where
  "make_tasks specs = map (\<lambda>(tid, arrival, burst, dl, per). Task_init tid arrival burst dl per) specs"

text \<open>
  The constructor as the specification words it (section 4.1: ``Fails with
  \<open>InvalidTask\<close> if burst time \<open>\<le> 0\<close>, relative deadline \<open>\<le> 0\<close>, or arrival time \<open>< 0\<close>''), to be
  compared with \<open>Task_init\<close>, which is the constructor of the source.
\<close>

definition create_task_spec :: "string \<Rightarrow> int \<Rightarrow> int \<Rightarrow> int \<Rightarrow> int \<Rightarrow> error + task" where
  "create_task_spec tid arrival burst dl per =
     (if burst \<le> 0 \<or> dl \<le> 0 \<or> arrival < 0 then Inl InvalidTask
      else Inr (Task_init tid arrival burst dl per))"

section \<open>Predicates of the statements and of the proofs\<close>

text \<open>
  The heap property of \<open>heapq\<close>: \<open>heap[(i - 1) >> 1] <= heap[i]\<close> for every \<open>i > 0\<close>, on the
  first three components of the tuples.  \<open>up_ok\<close> is the property while an item moves
  up from position \<open>p\<close> (every edge holds but the one above \<open>p\<close>), \<open>down_ok\<close> while the
  hole at \<open>p\<close> moves down (every edge that does not touch \<open>p\<close> holds).
\<close>

definition heap_inv :: "entry list \<Rightarrow> bool" where
  "heap_inv h \<longleftrightarrow> (\<forall>i. 0 < i \<and> i < length h \<longrightarrow> key (h ! ((i - 1) div 2)) \<le> key (h ! i))"

definition up_ok :: "entry list \<Rightarrow> nat \<Rightarrow> bool" where
  "up_ok g p \<longleftrightarrow>
     (\<forall>i. 0 < i \<and> i < length g \<and> i \<noteq> p \<longrightarrow> key (g ! ((i - 1) div 2)) \<le> key (g ! i)) \<and>
     (\<forall>c. 0 < c \<and> c < length g \<and> (c - 1) div 2 = p \<and> 0 < p \<longrightarrow>
          key (g ! ((p - 1) div 2)) \<le> key (g ! c))"

definition down_ok :: "entry list \<Rightarrow> nat \<Rightarrow> bool" where
  "down_ok h p \<longleftrightarrow>
     (\<forall>i. 0 < i \<and> i < length h \<and> i \<noteq> p \<and> (i - 1) div 2 \<noteq> p \<longrightarrow>
          key (h ! ((i - 1) div 2)) \<le> key (h ! i)) \<and>
     (\<forall>c. 0 < c \<and> c < length h \<and> (c - 1) div 2 = p \<and> 0 < p \<longrightarrow>
          key (h ! ((p - 1) div 2)) \<le> key (h ! c))"

text \<open>
  \<open>cnt\<close> is the sequence number of a tuple.  \<open>queue_ok\<close>: the ready queue is a heap whose
  tuples differ in their first three components, every sequence number in it being
  below the scheduler's \<open>_task_counter\<close>.  \<open>lex_less\<close> is the lexicographic order on
  (priority key, arrival time, sequence number).
\<close>

definition cnt :: "entry \<Rightarrow> int" where
  "cnt e = (case e of (p, a, c, r) \<Rightarrow> c)"

definition queue_ok :: "entry list \<Rightarrow> int \<Rightarrow> bool" where
  "queue_ok q n \<longleftrightarrow> heap_inv q \<and> distinct (map key q) \<and> (\<forall>e\<in>set q. cnt e < n)"

definition lex_less :: "entry \<Rightarrow> entry \<Rightarrow> bool" where
  "lex_less e e' = (case e of (p, a, c, r) \<Rightarrow> case e' of (p', a', c', r') \<Rightarrow>
     p < p' \<or> (p = p' \<and> (a < a' \<or> (a = a' \<and> c < c'))))"

text \<open>
  The scheduler states that arise from a new scheduler object by calls of \<open>add_task\<close>
  (admissions and re-insertions alike) and \<open>get_next_task\<close>, and by the assignments of
  \<open>run\<close> to the other fields.  The list records the sequence numbers that the insertions
  have assigned so far, in the order of the insertions.
\<close>

inductive reach :: "policy \<Rightarrow> scheduler \<Rightarrow> int list \<Rightarrow> bool" for pol :: policy where
  init: "reach pol Scheduler_init []"
| add: "reach pol s cs \<Longrightarrow> r < length ts \<Longrightarrow> add_task pol s ts r = Inr (s', ts') \<Longrightarrow>
        reach pol s' (cs @ [counter (ts' ! r)])"
| pop: "reach pol s cs \<Longrightarrow> get_next_task pol s = Inr (cur, s') \<Longrightarrow> reach pol s' cs"
| other: "reach pol s cs \<Longrightarrow> ready_queue s' = ready_queue s \<Longrightarrow>
        task_counter s' = task_counter s \<Longrightarrow> reach pol s' cs"

text \<open>
  \<open>sinv\<close>: the admitted tasks (those below \<open>task_idx\<close>) are split between the ready queue,
  the completed list and the task that has just been popped; \<open>loop_inv\<close> is \<open>sinv\<close> at
  the head of the loop of \<open>run\<close>.
\<close>

definition sinv :: "nat option \<Rightarrow> entry list \<Rightarrow> int \<Rightarrow> nat list \<Rightarrow> nat \<Rightarrow> nat \<Rightarrow> bool" where
  "sinv cur q n cs len i \<longleftrightarrow>
     i \<le> len \<and> queue_ok q n \<and> distinct (map ref q) \<and> distinct cs \<and>
     set_option cur \<inter> (ref ` set q \<union> set cs) = {} \<and>
     ref ` set q \<inter> set cs = {} \<and>
     ref ` set q \<union> set cs \<union> set_option cur = {r. r < i}"

definition loop_inv :: "scheduler \<times> task list \<times> nat \<Rightarrow> bool" where
  "loop_inv st \<longleftrightarrow> (case st of (s, ts, i) \<Rightarrow>
     sinv None (ready_queue s) (task_counter s) (completed_tasks s) (length ts) i)"

text \<open>
  \<open>ran\<close> is what one executed unit does to the fields of the task, \<open>clr\<close> forgets the
  \<open>_counter\<close> field (which every insertion overwrites), \<open>static\<close> collects the fields that
  \<open>run\<close> never assigns, and \<open>fresh\<close> says that the other fields are as the constructor
  leaves them.  \<open>step_ok cur st st'\<close> describes one iteration of the loop that executes
  the task \<open>cur\<close>, or is idle when \<open>cur\<close> is \<open>None\<close>.
\<close>

definition clr :: "task \<Rightarrow> task" where
  "clr t = t\<lparr>counter := 0\<rparr>"

definition ran :: "int \<Rightarrow> task \<Rightarrow> task" where
  "ran now t0 =
     (let t1 = (if start_time t0 = - 1 then t0\<lparr>start_time := now\<rparr> else t0);
          t2 = t1\<lparr>remaining_time := remaining_time t1 - 1\<rparr>
      in if remaining_time t2 = 0 then
           (let t3 = t2\<lparr>completion_time := now + 1\<rparr> in
            if completion_time t3 > absolute_deadline t3 then t3\<lparr>missed_deadline := True\<rparr> else t3)
         else t2)"

definition static :: "task \<Rightarrow> string \<times> int \<times> int \<times> int \<times> int \<times> int" where
  "static t = (task_id t, arrival_time t, burst_time t, deadline t, period t, absolute_deadline t)"

definition fresh :: "task \<Rightarrow> bool" where
  "fresh t \<longleftrightarrow> remaining_time t = burst_time t \<and> start_time t = - 1 \<and>
     completion_time t = - 1 \<and> \<not> missed_deadline t"

definition step_ok ::
  "nat option \<Rightarrow> scheduler \<times> task list \<times> nat \<Rightarrow> scheduler \<times> task list \<times> nat \<Rightarrow> bool" where
  "step_ok cur st st' \<longleftrightarrow> (case st of (s, ts, i) \<Rightarrow> case st' of (s', ts', i') \<Rightarrow>
     time s' = time s + 1 \<and> length ts' = length ts \<and>
     history s' = history s @
        [(time s, time s + 1, case cur of None \<Rightarrow> ''IDLE'' | Some r \<Rightarrow> task_id (ts ! r))] \<and>
     (\<forall>j<length ts. Some j \<noteq> cur \<longrightarrow> clr (ts' ! j) = clr (ts ! j)) \<and>
     (case cur of
        None \<Rightarrow> completed_tasks s' = completed_tasks s \<and> missed_deadlines s' = missed_deadlines s
      | Some r \<Rightarrow> r < length ts \<and> r \<notin> set (completed_tasks s) \<and>
          clr (ts' ! r) = clr (ran (time s) (ts ! r)) \<and>
          completed_tasks s' =
            (if remaining_time (ts ! r) - 1 = 0 then completed_tasks s @ [r] else completed_tasks s) \<and>
          missed_deadlines s' =
            (if remaining_time (ts ! r) - 1 = 0 \<and> time s + 1 > absolute_deadline (ts ! r)
             then missed_deadlines s + 1 else missed_deadlines s)))"

text \<open>
  The invariants of the loop: the shape of the history (\<open>hist_ok\<close>, \<open>hinv\<close>), the flags and
  the completion times of completed and uncompleted tasks (\<open>tinv\<close>), the accounting of
  the remaining time (\<open>pinv\<close>), and the remaining times not exceeding those of an
  earlier state (\<open>mono_from\<close>).
\<close>

definition hist_ok :: "string set \<Rightarrow> (int \<times> int \<times> string) list \<Rightarrow> bool" where
  "hist_ok ids h \<longleftrightarrow>
     (\<forall>i<length h. \<exists>x. h ! i = (int i, int i + 1, x) \<and> (x = ''IDLE'' \<or> x \<in> ids))"

definition hinv :: "task list \<Rightarrow> scheduler \<times> task list \<times> nat \<Rightarrow> bool" where
  "hinv ts0 st \<longleftrightarrow> (case st of (s, ts, i) \<Rightarrow>
     map static ts = map static ts0 \<and> 0 \<le> time s \<and> length (history s) = nat (time s) \<and>
     hist_ok (task_id ` set ts0) (history s))"

definition tinv :: "scheduler \<times> task list \<times> nat \<Rightarrow> bool" where
  "tinv st \<longleftrightarrow> (case st of (s, ts, i) \<Rightarrow>
     0 \<le> time s \<and>
     (\<forall>r<length ts. r \<notin> set (completed_tasks s) \<longrightarrow>
         completion_time (ts ! r) = - 1 \<and> \<not> missed_deadline (ts ! r)) \<and>
     (\<forall>r\<in>set (completed_tasks s). r < length ts \<and> remaining_time (ts ! r) = 0 \<and>
         1 \<le> completion_time (ts ! r) \<and> completion_time (ts ! r) \<le> time s \<and>
         (missed_deadline (ts ! r) \<longleftrightarrow> absolute_deadline (ts ! r) < completion_time (ts ! r))) \<and>
     missed_deadlines s = int (length (filter (\<lambda>r. missed_deadline (ts ! r)) (completed_tasks s))))"

definition pinv :: "scheduler \<times> task list \<times> nat \<Rightarrow> bool" where
  "pinv st \<longleftrightarrow> (case st of (s, ts, i) \<Rightarrow>
     (\<forall>r<length ts. r \<notin> set (completed_tasks s) \<longrightarrow> 0 < remaining_time (ts ! r)) \<and>
     (\<forall>r<length ts. remaining_time (ts ! r) =
        burst_time (ts ! r) - int (length (filter (\<lambda>e. snd (snd e) = task_id (ts ! r)) (history s)))))"

definition mono_from :: "task list \<Rightarrow> scheduler \<times> task list \<times> nat \<Rightarrow> bool" where
  "mono_from ts1 st \<longleftrightarrow> (case st of (s, ts, i) \<Rightarrow>
     length ts = length ts1 \<and> (\<forall>j<length ts1. remaining_time (ts ! j) \<le> remaining_time (ts1 ! j)))"

text \<open>
  \<open>unit_effect k a b\<close>: what the unit \<open>k\<close> of a run does between the state \<open>a\<close> at time \<open>k\<close>
  and the state \<open>b\<close> at time \<open>k + 1\<close>.  Either the unit is idle and no task changes, or
  one task that is not yet completed executes: its remaining time goes down by one,
  and it enters \<open>completed_tasks\<close> with completion time \<open>k + 1\<close> exactly when its
  remaining time has reached zero; the remaining and completion times of the other
  tasks and the list of completed tasks are otherwise unchanged.
\<close>

definition unit_effect :: "int \<Rightarrow> scheduler \<times> task list \<Rightarrow> scheduler \<times> task list \<Rightarrow> bool" where
  "unit_effect k a b \<longleftrightarrow> (case a of (sk, tsk) \<Rightarrow> case b of (s', ts') \<Rightarrow>
     length ts' = length tsk \<and> time sk = k \<and> time s' = k + 1 \<and>
     ((history s' = history sk @ [(k, k + 1, ''IDLE'')] \<and>
       completed_tasks s' = completed_tasks sk \<and>
       (\<forall>i<length tsk. remaining_time (ts' ! i) = remaining_time (tsk ! i) \<and>
                        completion_time (ts' ! i) = completion_time (tsk ! i)))
      \<or>
      (\<exists>r<length tsk. r \<notin> set (completed_tasks sk) \<and>
         history s' = history sk @ [(k, k + 1, task_id (tsk ! r))] \<and>
         remaining_time (ts' ! r) = remaining_time (tsk ! r) - 1 \<and>
         (\<forall>i<length tsk. i \<noteq> r \<longrightarrow> remaining_time (ts' ! i) = remaining_time (tsk ! i) \<and>
                                   completion_time (ts' ! i) = completion_time (tsk ! i)) \<and>
         (if remaining_time (ts' ! r) = 0
          then completed_tasks s' = completed_tasks sk @ [r] \<and> completion_time (ts' ! r) = k + 1
          else completed_tasks s' = completed_tasks sk \<and>
               completion_time (ts' ! r) = completion_time (tsk ! r)))))"

section \<open>The scheduler over any priority queue\<close>

text \<open>
  The scheduler over any priority queue.  What \<open>heapq\<close> promises is that \<open>heappush\<close> adds
  the item to the queue and that \<open>heappop\<close> removes and returns a smallest item, one that
  no queued item is less than; how the items are arranged in the list is not part of
  the promise.  The relations below are the methods of the scheduler and the loops of
  \<open>run\<close>, line by line, with these two promises in the place of \<open>heappush\<close> and
  \<open>heappop\<close>: every arrangement of the queue and every choice of a smallest item is
  allowed.  The runs of the code are among the runs of these relations
  (lemma \<open>run_refines\<close>).
\<close>

definition add_task_any ::
  "policy \<Rightarrow> scheduler \<Rightarrow> task list \<Rightarrow> nat \<Rightarrow> scheduler \<times> task list \<Rightarrow> bool" where
  "add_task_any pol s ts r res \<longleftrightarrow>
     (let t = (ts ! r)\<lparr>counter := task_counter s\<rparr>;
          ts' = ts[r := t];
          s' = s\<lparr>task_counter := task_counter s + 1\<rparr>
      in pol \<noteq> Abstract \<and>
         (\<exists>q. mset q = add_mset (priority pol t, arrival_time t, counter t, r) (mset (ready_queue s')) \<and>
              res = (s'\<lparr>ready_queue := q\<rparr>, ts')))"

definition get_next_task_any ::
  "policy \<Rightarrow> scheduler \<Rightarrow> nat option \<times> scheduler \<Rightarrow> bool" where
  "get_next_task_any pol s res \<longleftrightarrow>
     pol \<noteq> Abstract \<and>
     (if ready_queue s = [] then res = (None, s)
      else (\<exists>e q. mset (ready_queue s) = add_mset e (mset q) \<and>
                  (\<forall>x\<in>set (ready_queue s). entry_lt x e = Inr False) \<and>
                  res = (Some (ref e), s\<lparr>ready_queue := q\<rparr>)))"

inductive admit_arrivals_any ::
  "policy \<Rightarrow> scheduler \<Rightarrow> task list \<Rightarrow> nat \<Rightarrow> scheduler \<times> task list \<times> nat \<Rightarrow> bool"
  for pol :: policy where
  stop: "\<not> (task_idx < length ts \<and> arrival_time (ts ! task_idx) \<le> time s) \<Longrightarrow>
         admit_arrivals_any pol s ts task_idx (s, ts, task_idx)"
| admit: "task_idx < length ts \<and> arrival_time (ts ! task_idx) \<le> time s \<Longrightarrow>
          add_task_any pol s ts task_idx (s', ts') \<Longrightarrow>
          admit_arrivals_any pol s' ts' (task_idx + 1) res \<Longrightarrow>
          admit_arrivals_any pol s ts task_idx res"

definition execute_any ::
  "policy \<Rightarrow> scheduler \<Rightarrow> task list \<Rightarrow> nat \<Rightarrow> scheduler \<times> task list \<Rightarrow> bool" where
  "execute_any pol s ts r res \<longleftrightarrow>
     (let t0 = ts ! r;
          t1 = (if start_time t0 = - 1 then t0\<lparr>start_time := time s\<rparr> else t0);
          s1 = s\<lparr>history := history s @ [(time s, time s + 1, task_id t1)]\<rparr>;
          t2 = t1\<lparr>remaining_time := remaining_time t1 - 1\<rparr>
      in if remaining_time t2 = 0 then
           (let t3 = t2\<lparr>completion_time := time s1 + 1\<rparr> in
            if completion_time t3 > absolute_deadline t3 then
              res = (s1\<lparr>missed_deadlines := missed_deadlines s1 + 1,
                        completed_tasks := completed_tasks s1 @ [r]\<rparr>,
                     ts[r := t3\<lparr>missed_deadline := True\<rparr>])
            else
              res = (s1\<lparr>completed_tasks := completed_tasks s1 @ [r]\<rparr>, ts[r := t3]))
         else add_task_any pol s1 (ts[r := t2]) r res)"

definition run_step_any ::
  "policy \<Rightarrow> scheduler \<times> task list \<times> nat \<Rightarrow> scheduler \<times> task list \<times> nat \<Rightarrow> bool" where
  "run_step_any pol st st' \<longleftrightarrow>
     (case st of (s, ts, task_idx) \<Rightarrow>
        (\<exists>s1 ts1 task_idx1 current_task s2.
            admit_arrivals_any pol s ts task_idx (s1, ts1, task_idx1) \<and>
            get_next_task_any pol s1 (current_task, s2) \<and>
            (case current_task of
               Some r \<Rightarrow>
                 (\<exists>s3 ts3. execute_any pol s2 ts1 r (s3, ts3) \<and>
                            st' = (s3\<lparr>time := time s3 + 1\<rparr>, ts3, task_idx1))
             | None \<Rightarrow>
                 st' = (s2\<lparr>history := history s2 @ [(time s2, time s2 + 1, ''IDLE'')],
                           time := time s2 + 1\<rparr>, ts1, task_idx1))))"

inductive run_loop_any ::
  "policy \<Rightarrow> scheduler \<times> task list \<times> nat \<Rightarrow> int \<Rightarrow> scheduler \<times> task list \<times> nat \<Rightarrow> bool"
  for pol :: policy where
  done_loop: "\<not> time (fst st) < max_time \<Longrightarrow> run_loop_any pol st max_time st"
| iterate: "time (fst st) < max_time \<Longrightarrow> run_step_any pol st st1 \<Longrightarrow>
            run_loop_any pol st1 max_time st' \<Longrightarrow> run_loop_any pol st max_time st'"

definition run_any ::
  "policy \<Rightarrow> scheduler \<Rightarrow> task list \<Rightarrow> int \<Rightarrow> scheduler \<times> task list \<Rightarrow> bool" where
  "run_any pol s tasks max_time res \<longleftrightarrow>
     (\<exists>task_idx. run_loop_any pol (s, sort_key arrival_time tasks, 0) max_time
                     (fst res, snd res, task_idx))"

text \<open>
  Two scheduler objects that differ at most in the arrangement of their ready queues,
  and the property of a queue that makes its smallest item unique.
\<close>

definition sim :: "scheduler \<Rightarrow> scheduler \<Rightarrow> bool" where
  "sim s s' \<longleftrightarrow> time s' = time s \<and> history s' = history s \<and>
     completed_tasks s' = completed_tasks s \<and> missed_deadlines s' = missed_deadlines s \<and>
     task_counter s' = task_counter s \<and> mset (ready_queue s') = mset (ready_queue s)"

definition keys_ok :: "scheduler \<Rightarrow> bool" where
  "keys_ok s \<longleftrightarrow> distinct (map key (ready_queue s)) \<and>
     (\<forall>e\<in>set (ready_queue s). cnt e < task_counter s)"

section \<open>The heap operations on queues with distinct keys\<close>

lemma entry_lt_key: "key a \<noteq> key b \<Longrightarrow> entry_lt a b = Inr (key a < key b)"
  by (cases a; cases b) (auto simp: key_def)

lemma up_ok_swap:
  assumes ok: "up_ok g p" and p: "0 < p" "p < length g"
    and lt: "key (g ! p) < key (g ! ((p - 1) div 2))"
  shows "up_ok (g[p := g ! ((p - 1) div 2), (p - 1) div 2 := g ! p]) ((p - 1) div 2)"
proof -
  define q where "q = (p - 1) div 2"
  define g' where "g' = g[p := g ! q, q := g ! p]"
  have qp: "q < p" using p unfolding q_def by arith
  have len: "length g' = length g" by (simp add: g'_def)
  have at_p: "g' ! p = g ! q" using qp p by (simp add: g'_def)
  have at_q: "g' ! q = g ! p" using qp p by (simp add: g'_def)
  have other: "\<And>i. i \<noteq> p \<Longrightarrow> i \<noteq> q \<Longrightarrow> g' ! i = g ! i" by (simp add: g'_def)
  from ok have e: "\<And>i. 0 < i \<Longrightarrow> i < length g \<Longrightarrow> i \<noteq> p \<Longrightarrow> key (g ! ((i - 1) div 2)) \<le> key (g ! i)"
    and c: "\<And>c. 0 < c \<Longrightarrow> c < length g \<Longrightarrow> (c - 1) div 2 = p \<Longrightarrow> key (g ! q) \<le> key (g ! c)"
    using p by (auto simp: up_ok_def q_def)
  have A: "key (g' ! ((i - 1) div 2)) \<le> key (g' ! i)" if i: "0 < i" "i < length g'" "i \<noteq> q" for i
  proof (cases "i = p")
    case True
    then show ?thesis using at_p at_q lt by (simp add: q_def)
  next
    case ip: False
    then have gi: "g' ! i = g ! i" using i other by simp
    consider "(i - 1) div 2 = p" | "(i - 1) div 2 = q" | "(i - 1) div 2 \<noteq> p" "(i - 1) div 2 \<noteq> q"
      by blast
    then show ?thesis
    proof cases
      case 1
      then show ?thesis using c [of i] i len gi at_p by simp
    next
      case 2
      have "key (g ! q) \<le> key (g ! i)" using e [of i] i len ip 2 by simp
      then show ?thesis using 2 gi at_q lt q_def by simp
    next
      case 3
      then show ?thesis using e [of i] i len ip gi other by simp
    qed
  qed
  have B: "key (g' ! ((q - 1) div 2)) \<le> key (g' ! c)"
    if c': "0 < c" "c < length g'" "(c - 1) div 2 = q" "0 < q" for c
  proof -
    have "(q - 1) div 2 < q" using c' by arith
    then have gq: "g' ! ((q - 1) div 2) = g ! ((q - 1) div 2)" using qp other by simp
    have qq: "key (g ! ((q - 1) div 2)) \<le> key (g ! q)" using e [of q] c' qp p by simp
    show ?thesis
    proof (cases "c = p")
      case True
      then show ?thesis using gq qq at_p by simp
    next
      case False
      moreover have "c \<noteq> q" using c' by arith
      moreover have "key (g ! q) \<le> key (g ! c)" using e [of c] c' len False by simp
      ultimately show ?thesis using gq qq other by simp
    qed
  qed
  have "up_ok g' q" unfolding up_ok_def using A B by blast
  then show ?thesis unfolding g'_def q_def .
qed

lemma distinct_keys_nth:
  "distinct (map key g) \<Longrightarrow> i < length g \<Longrightarrow> j < length g \<Longrightarrow> i \<noteq> j \<Longrightarrow> key (g ! i) \<noteq> key (g ! j)"
  using nth_eq_iff_index_eq [of "map key g" i j] by simp

lemma distinct_keys_mset:
  "mset g' = mset g \<Longrightarrow> distinct (map key g) \<Longrightarrow> distinct (map key g')"
proof -
  assume a: "mset g' = mset g" and d: "distinct (map key g)"
  from a have "mset (map key g') = mset (map key g)" by simp
  then show ?thesis using d mset_eq_imp_distinct_iff by blast
qed

lemma up_ok_heap_inv:
  "up_ok g p \<Longrightarrow> (0 < p \<Longrightarrow> key (g ! ((p - 1) div 2)) \<le> key (g ! p)) \<Longrightarrow> heap_inv g"
  unfolding up_ok_def heap_inv_def by metis

lemma siftdown_loop_correct:
  assumes "p < length h" and "distinct (map key (h[p := x]))"
  shows "\<exists>h'. siftdown_loop h 0 p x = Inr h' \<and> mset h' = mset (h[p := x]) \<and>
           (up_ok (h[p := x]) p \<longrightarrow> heap_inv h')"
  using assms
proof (induction h "0::nat" p x rule: siftdown_loop.induct)
  case (1 h p x)
  define g where "g = h[p := x]"
  show ?case
  proof (cases "0 < p")
    case False
    then have "siftdown_loop h 0 p x = Inr g"
      by (subst siftdown_loop.simps) (simp add: g_def)
    moreover have "up_ok g p \<longrightarrow> heap_inv g" using False by (auto intro: up_ok_heap_inv)
    ultimately show ?thesis by (simp add: g_def)
  next
    case True
    define q where "q = (p - 1) div 2"
    have qp: "q < p" using True unfolding q_def by arith
    have gq: "g ! q = h ! q" and gp: "g ! p = x" using qp "1.prems" by (simp_all add: g_def)
    have ne: "key x \<noteq> key (h ! q)"
      using distinct_keys_nth [of g p q] "1.prems" qp gq gp by (simp add: g_def)
    have cmp: "entry_lt x (h ! q) = Inr (key x < key (h ! q))"
      using ne by (rule entry_lt_key)
    show ?thesis
    proof (cases "key x < key (h ! q)")
      case False
      then have "siftdown_loop h 0 p x = Inr g"
        using True cmp by (subst siftdown_loop.simps) (simp add: g_def q_def)
      moreover have "up_ok g p \<longrightarrow> heap_inv g"
        using False gq gp by (auto intro!: up_ok_heap_inv simp: q_def)
      ultimately show ?thesis by (simp add: g_def)
    next
      case lt: True
      define h1 where "h1 = h[p := h ! q]"
      define g1 where "g1 = h1[q := x]"
      have g1: "g1 = g[p := g ! q, q := g ! p]"
        by (simp add: g1_def h1_def g_def gq [unfolded g_def] gp [unfolded g_def])
      have ms: "mset g1 = mset g"
        unfolding g1 using mset_swap [of q g p] qp "1.prems" by (simp add: g_def)
      have d1: "distinct (map key (h1[q := x]))"
        using distinct_keys_mset [OF ms] "1.prems" by (simp add: g_def g1_def)
      have unf: "siftdown_loop h 0 p x = siftdown_loop h1 0 q x"
        using True cmp lt by (subst siftdown_loop.simps) (simp add: q_def h1_def)
      have ql: "q < length h1" using qp "1.prems" by (simp add: h1_def)
      from "1.hyps" [OF True cmp [unfolded q_def] lt [unfolded q_def], folded q_def h1_def, OF ql d1]
      obtain h' where r: "siftdown_loop h1 0 q x = Inr h'" "mset h' = mset g1"
        "up_ok g1 q \<longrightarrow> heap_inv h'"
        by (auto simp: g1_def)
      have "up_ok g p \<longrightarrow> up_ok g1 q"
        unfolding g1 q_def using up_ok_swap [of g p] True "1.prems" lt gq gp
        by (simp add: g_def q_def)
      with r unf ms show ?thesis by (auto simp: g_def)
    qed
  qed
qed

lemma down_ok_step:
  assumes ok: "down_ok h p" and c: "c < length h" "c = 2 * p + 1 \<or> c = 2 * p + 2"
    and least: "\<And>i. i < length h \<Longrightarrow> i = 2 * p + 1 \<or> i = 2 * p + 2 \<Longrightarrow> key (h ! c) \<le> key (h ! i)"
  shows "down_ok (h[p := h ! c]) c"
proof -
  define h' where "h' = h[p := h ! c]"
  have pc: "p < c" and parc: "(c - 1) div 2 = p" using c by auto
  have len: "length h' = length h" by (simp add: h'_def)
  have at_p: "h' ! p = h ! c" using pc c by (simp add: h'_def)
  have other: "\<And>i. i \<noteq> p \<Longrightarrow> h' ! i = h ! i" by (simp add: h'_def)
  from ok have e: "\<And>i. 0 < i \<Longrightarrow> i < length h \<Longrightarrow> i \<noteq> p \<Longrightarrow> (i - 1) div 2 \<noteq> p \<Longrightarrow>
      key (h ! ((i - 1) div 2)) \<le> key (h ! i)"
    and g: "\<And>d. 0 < d \<Longrightarrow> d < length h \<Longrightarrow> (d - 1) div 2 = p \<Longrightarrow> 0 < p \<Longrightarrow>
      key (h ! ((p - 1) div 2)) \<le> key (h ! d)"
    by (auto simp: down_ok_def)
  have A: "key (h' ! ((i - 1) div 2)) \<le> key (h' ! i)"
    if i: "0 < i" "i < length h'" "i \<noteq> c" "(i - 1) div 2 \<noteq> c" for i
  proof (cases "i = p")
    case True
    have "(p - 1) div 2 < p" using True i by arith
    then have "h' ! ((p - 1) div 2) = h ! ((p - 1) div 2)" using other by simp
    moreover have "key (h ! ((p - 1) div 2)) \<le> key (h ! c)"
      using g [of c] pc c parc True i by simp
    ultimately show ?thesis using True at_p by simp
  next
    case ip: False
    show ?thesis
    proof (cases "(i - 1) div 2 = p")
      case True
      then have "i = 2 * p + 1 \<or> i = 2 * p + 2" using i by arith
      then have "key (h ! c) \<le> key (h ! i)" using least [of i] i len by simp
      then show ?thesis using True at_p other ip by simp
    next
      case False
      then show ?thesis using e [of i] i len ip other by simp
    qed
  qed
  have B: "key (h' ! ((c - 1) div 2)) \<le> key (h' ! d)"
    if d: "0 < d" "d < length h'" "(d - 1) div 2 = c" "0 < c" for d
  proof -
    have dp: "d \<noteq> p" "c \<noteq> p" using d pc by arith+
    then have "key (h ! c) \<le> key (h ! d)" using e [of d] d len by simp
    then show ?thesis using parc at_p other dp by simp
  qed
  have "down_ok h' c" unfolding down_ok_def using A B by blast
  then show ?thesis unfolding h'_def .
qed

lemma siftup_loop_correct:
  assumes "pos < length h" and "distinct (map key (h[pos := x]))"
  shows "\<exists>h' p'. siftup_loop h pos (2 * pos + 1) = Inr (h', p') \<and> p' < length h \<and>
           length h' = length h \<and> length h \<le> 2 * p' + 1 \<and>
           mset (h'[p' := x]) = mset (h[pos := x]) \<and>
           (down_ok h pos \<longrightarrow> down_ok h' p')"
  using assms
proof (induction "length h - pos" arbitrary: h pos rule: less_induct)
  case less
  define g where "g = h[pos := x]"
  define c where "c = 2 * pos + 1"
  show ?case
  proof (cases "c < length h")
    case False
    then have "siftup_loop h pos (2 * pos + 1) = Inr (h, pos)"
      by (subst siftup_loop.simps) (simp add: c_def)
    then show ?thesis using False less.prems by (simp add: c_def)
  next
    case True
    have gc: "g ! c = h ! c" "g ! (c + 1) = h ! (c + 1)" by (simp_all add: g_def c_def)
    have cmp: "c + 1 < length h \<Longrightarrow>
        entry_lt (h ! c) (h ! (c + 1)) = Inr (key (h ! c) < key (h ! (c + 1)))"
    proof -
      assume "c + 1 < length h"
      then have "key (g ! c) \<noteq> key (g ! (c + 1))"
        using distinct_keys_nth [of g c "c + 1"] less.prems by (simp add: g_def)
      then show ?thesis using gc entry_lt_key by simp
    qed
    define c' where "c' = (if c + 1 < length h \<and> \<not> key (h ! c) < key (h ! (c + 1)) then c + 1 else c)"
    define h1 where "h1 = h[pos := h ! c']"
    have c'l: "c' < length h" and c'p: "pos < c'" and c'c: "c' = 2 * pos + 1 \<or> c' = 2 * pos + 2"
      using True by (auto simp: c'_def c_def)
    have "siftup_loop h pos c = siftup_loop h1 c' (2 * c' + 1)"
      unfolding siftup_loop.simps [of h pos c] using True cmp
      by (auto simp: c'_def h1_def Let_def)
    then have unf: "siftup_loop h pos (2 * pos + 1) = siftup_loop h1 c' (2 * c' + 1)"
      by (simp add: c_def)
    have gc': "g ! c' = h ! c'" and gpos: "g ! pos = x"
      using c'p less.prems by (simp_all add: g_def)
    have g1: "h1[c' := x] = g[c' := g ! pos, pos := g ! c']"
      using c'p by (simp add: h1_def g_def gc' [unfolded g_def] gpos [unfolded g_def] list_update_swap)
    have ms: "mset (h1[c' := x]) = mset g"
      unfolding g1 using mset_swap [of pos g c'] c'l less.prems by (simp add: g_def)
    have d1: "distinct (map key (h1[c' := x]))"
      using distinct_keys_mset [OF ms] less.prems by (simp add: g_def)
    have "length h1 - c' < length h - pos" using c'l c'p by (simp add: h1_def)
    moreover have "c' < length h1" using c'l by (simp add: h1_def)
    ultimately obtain h' p' where r: "siftup_loop h1 c' (2 * c' + 1) = Inr (h', p')"
      "p' < length h1" "length h' = length h1" "length h1 \<le> 2 * p' + 1"
      "mset (h'[p' := x]) = mset (h1[c' := x])" "down_ok h1 c' \<longrightarrow> down_ok h' p'"
      using less.hyps [of h1 c'] d1 by blast
    have least: "key (h ! c') \<le> key (h ! i)"
      if "i < length h" "i = 2 * pos + 1 \<or> i = 2 * pos + 2" for i
      using that by (auto simp: c'_def c_def)
    have "down_ok h pos \<longrightarrow> down_ok h1 c'"
      unfolding h1_def using down_ok_step [of h pos c'] c'l c'c least by blast
    with r unf ms show ?thesis by (simp add: h1_def g_def)
  qed
qed

lemma down_ok_leaf:
  assumes "down_ok h p" and "p < length h" and "length h \<le> 2 * p + 1"
  shows "up_ok (h[p := x]) p"
  unfolding up_ok_def
proof (intro conjI allI impI)
  fix i assume a: "0 < i \<and> i < length (h[p := x]) \<and> i \<noteq> p"
  then have i: "0 < i" "i < length h" "i \<noteq> p" by simp_all
  have np: "(i - 1) div 2 \<noteq> p" using i assms(3) by arith
  have "key (h ! ((i - 1) div 2)) \<le> key (h ! i)"
    using assms(1) i np unfolding down_ok_def by blast
  then show "key (h[p := x] ! ((i - 1) div 2)) \<le> key (h[p := x] ! i)"
    using i np by simp
next
  fix c assume "0 < c \<and> c < length (h[p := x]) \<and> (c - 1) div 2 = p \<and> 0 < p"
  then have "0 < c" "c < length h" "(c - 1) div 2 = p" by simp_all
  then have False using assms(3) by arith
  then show "key (h[p := x] ! ((p - 1) div 2)) \<le> key (h[p := x] ! c)" ..
qed

lemma siftup_correct:
  assumes "h \<noteq> []" and "distinct (map key h)"
  shows "\<exists>h'. siftup h 0 = Inr h' \<and> mset h' = mset h \<and> (down_ok h 0 \<longrightarrow> heap_inv h')"
proof -
  define x where "x = h ! 0"
  have hx: "h[0 := x] = h" by (simp add: x_def)
  from assms obtain h1 p1 where r: "siftup_loop h 0 (2 * 0 + 1) = Inr (h1, p1)" "p1 < length h"
    "length h1 = length h" "length h \<le> 2 * p1 + 1" "mset (h1[p1 := x]) = mset (h[0 := x])"
    "down_ok h 0 \<longrightarrow> down_ok h1 p1"
    using siftup_loop_correct [of 0 h x] hx by auto
  define g where "g = h1[p1 := x]"
  have ms: "mset g = mset h" using r hx by (simp add: g_def)
  have d: "distinct (map key (g[p1 := x]))"
    using distinct_keys_mset [OF ms] assms by (simp add: g_def)
  have gp: "g ! p1 = x" "g[p1 := x] = g" using r by (simp_all add: g_def)
  from siftdown_loop_correct [of p1 g x] d r obtain h' where
    s: "siftdown_loop g 0 p1 x = Inr h'" "mset h' = mset g" "up_ok g p1 \<longrightarrow> heap_inv h'"
    using gp by (auto simp: g_def)
  have "siftup h 0 = Inr h'"
    using r s gp by (simp add: siftup_def siftdown_def g_def [symmetric] x_def [symmetric])
  moreover have "down_ok h 0 \<longrightarrow> up_ok g p1"
    using r down_ok_leaf [of h1 p1 x] by (simp add: g_def)
  ultimately show ?thesis using s ms by auto
qed

lemma heappush_correct:
  assumes "heap_inv h" and "distinct (map key (h @ [e]))"
  shows "\<exists>h'. heappush h e = Inr h' \<and> mset h' = add_mset e (mset h) \<and> heap_inv h'"
proof -
  define g where "g = h @ [e]"
  have gl: "g ! length h = e" "g[length h := e] = g" by (simp_all add: g_def)
  have ok: "up_ok g (length h)"
    unfolding up_ok_def
  proof (intro conjI allI impI)
    fix i assume "0 < i \<and> i < length g \<and> i \<noteq> length h"
    then have i: "0 < i" "i < length h" by (auto simp: g_def)
    then have "(i - 1) div 2 < length h" by arith
    then show "key (g ! ((i - 1) div 2)) \<le> key (g ! i)"
      using assms(1) i by (simp add: g_def nth_append heap_inv_def)
  next
    fix c assume "0 < c \<and> c < length g \<and> (c - 1) div 2 = length h \<and> 0 < length h"
    then have False by (auto simp: g_def)
    then show "key (g ! ((length h - 1) div 2)) \<le> key (g ! c)" ..
  qed
  from siftdown_loop_correct [of "length h" g e] assms(2) gl ok obtain h' where
    "siftdown_loop g 0 (length h) e = Inr h'" "mset h' = mset g" "heap_inv h'"
    by (auto simp: g_def)
  then show ?thesis using gl by (simp add: heappush_def siftdown_def g_def [symmetric]) (simp add: g_def)
qed

lemma heappop_correct:
  assumes "h \<noteq> []" and "heap_inv h" and "distinct (map key h)"
  shows "\<exists>h'. heappop h = Inr (h ! 0, h') \<and> mset h = add_mset (h ! 0) (mset h') \<and> heap_inv h'"
proof (cases "butlast h = []")
  case True
  with assms(1) obtain a where "h = [a]" by (cases h) (auto split: if_splits)
  then show ?thesis by (simp add: heappop_def heap_inv_def)
next
  case False
  define rest where "rest = butlast h"
  define h0 where "h0 = rest[0 := last h]"
  from assms(1) False obtain a t where h: "h = a # t" "t \<noteq> []"
    by (cases h) (auto split: if_splits)
  have rest: "rest = a # butlast t" using h by (simp add: rest_def)
  have h0: "h0 = last t # butlast t" using h rest by (simp add: h0_def)
  have "mset (butlast t @ [last t]) = mset t" using h(2) by simp
  then have ms0: "mset h0 = mset t" by (simp add: h0)
  have d0: "distinct (map key h0)"
  proof -
    have "distinct (map key t)" using assms(3) h by simp
    then show ?thesis using distinct_keys_mset [OF ms0] by simp
  qed
  have len: "length h0 = length t" using h(2) by (cases t) (simp_all add: h0)
  have nth0: "h0 ! i = h ! i" if "0 < i" "i < length h0" for i
  proof -
    from that obtain j where j: "i = Suc j" by (cases i) auto
    have "j < length (butlast t)" using that j by (simp add: h0)
    then show ?thesis using j by (simp add: h0 h nth_butlast)
  qed
  have ok: "down_ok h0 0"
    unfolding down_ok_def
  proof (intro conjI allI impI)
    fix i assume a: "0 < i \<and> i < length h0 \<and> i \<noteq> 0 \<and> (i - 1) div 2 \<noteq> 0"
    then have b: "0 < (i - 1) div 2" "(i - 1) div 2 < length h0" "i < length h" "0 < i" "i < length h0"
      by (auto simp: len h)
    have "key (h ! ((i - 1) div 2)) \<le> key (h ! i)"
      using assms(2) b(3,4) unfolding heap_inv_def by blast
    then show "key (h0 ! ((i - 1) div 2)) \<le> key (h0 ! i)"
      using nth0 [OF b(1,2)] nth0 [OF b(4,5)] by simp
  next
    fix c assume "0 < c \<and> c < length h0 \<and> (c - 1) div 2 = 0 \<and> (0::nat) < 0"
    then show "key (h0 ! ((0 - 1) div 2)) \<le> key (h0 ! c)" by simp
  qed
  from siftup_correct [of h0] d0 ok obtain h' where
    r: "siftup h0 0 = Inr h'" "mset h' = mset h0" "heap_inv h'"
    by (auto simp: h0)
  have "rest \<noteq> []" "rest ! 0 = h ! 0" by (simp_all add: rest h)
  then have "heappop h = Inr (h ! 0, h')"
    unfolding heappop_def Let_def rest_def [symmetric] h0_def [symmetric]
    using r(1) assms(1) by simp
  then show ?thesis using r ms0 h by simp
qed

lemma heap_inv_min:
  assumes "heap_inv h" and "i < length h"
  shows "key (h ! 0) \<le> key (h ! i)"
  using assms(2)
proof (induction i rule: less_induct)
  case (less i)
  show ?case
  proof (cases "i = 0")
    case True
    then show ?thesis by simp
  next
    case False
    then have "(i - 1) div 2 < i" by arith
    moreover from this have "(i - 1) div 2 < length h" using less.prems by simp
    ultimately have "key (h ! 0) \<le> key (h ! ((i - 1) div 2))" using less.IH by blast
    moreover have "key (h ! ((i - 1) div 2)) \<le> key (h ! i)"
      using assms(1) False less.prems by (simp add: heap_inv_def)
    ultimately show ?thesis by (rule order_trans)
  qed
qed

section \<open>Invariants of the scheduler\<close>

lemma key_cnt: "key a = key b \<Longrightarrow> cnt a = cnt b"
  by (cases a; cases b) (simp add: key_def cnt_def)

lemma heappush_ok:
  assumes "queue_ok q n" and "cnt e = n"
  shows "\<exists>q'. heappush q e = Inr q' \<and> mset q' = add_mset e (mset q) \<and> queue_ok q' (n + 1)"
proof -
  have "key e \<notin> key ` set q"
  proof
    assume "key e \<in> key ` set q"
    then obtain x where "x \<in> set q" "key x = key e" by auto
    then show False using assms key_cnt [of x e] by (auto simp: queue_ok_def)
  qed
  then have d: "distinct (map key (q @ [e]))" using assms(1) by (simp add: queue_ok_def)
  from heappush_correct [OF _ d] assms(1) obtain q' where
    r: "heappush q e = Inr q'" "mset q' = add_mset e (mset q)" "heap_inv q'"
    by (auto simp: queue_ok_def)
  have "mset q' = mset (q @ [e])" using r by simp
  then have d': "distinct (map key q')" using d distinct_keys_mset by blast
  have "set q' = insert e (set q)" using r(2) by (metis mset_eq_setD list.simps(15) mset.simps(2))
  then have "\<forall>x\<in>set q'. cnt x < n + 1" using assms by (auto simp: queue_ok_def)
  with r d' show ?thesis by (simp add: queue_ok_def)
qed

lemma heappop_ok:
  assumes "queue_ok q n" and "q \<noteq> []"
  shows "\<exists>q'. heappop q = Inr (q ! 0, q') \<and> mset q = add_mset (q ! 0) (mset q') \<and>
           queue_ok q' n \<and> (\<forall>e\<in>set q. key (q ! 0) \<le> key e)"
proof -
  from heappop_correct [OF assms(2)] assms(1) obtain q' where
    r: "heappop q = Inr (q ! 0, q')" "mset q = add_mset (q ! 0) (mset q')" "heap_inv q'"
    by (auto simp: queue_ok_def)
  have m: "mset (q ! 0 # q') = mset q" using r by simp
  have "distinct (map key q)" using assms(1) by (simp add: queue_ok_def)
  from distinct_keys_mset [OF m this] have d': "distinct (map key q')" by simp
  have "set q = insert (q ! 0) (set q')" using r(2) by (metis mset_eq_setD list.simps(15) mset.simps(2))
  then have "\<forall>x\<in>set q'. cnt x < n" using assms by (auto simp: queue_ok_def)
  moreover have "\<forall>e\<in>set q. key (q ! 0) \<le> key e"
  proof
    fix e assume "e \<in> set q"
    then obtain i where "i < length q" "q ! i = e" by (auto simp: in_set_conv_nth)
    moreover have "heap_inv q" using assms(1) by (simp add: queue_ok_def)
    ultimately show "key (q ! 0) \<le> key e" using heap_inv_min [of q i] by simp
  qed
  ultimately show ?thesis using r d' by (auto simp: queue_ok_def)
qed

lemma priority_counter [simp]: "priority pol (t\<lparr>counter := c\<rparr>) = priority pol t"
  by (simp add: priority_def split: policy.splits)

lemma add_task_char:
  assumes "pol \<noteq> Abstract" and "queue_ok (ready_queue s) (task_counter s)"
  shows "\<exists>q'. add_task pol s ts r =
             Inr (s\<lparr>task_counter := task_counter s + 1, ready_queue := q'\<rparr>,
                  ts[r := (ts ! r)\<lparr>counter := task_counter s\<rparr>]) \<and>
           mset q' = add_mset (priority pol (ts ! r), arrival_time (ts ! r), task_counter s, r)
                       (mset (ready_queue s)) \<and>
           queue_ok q' (task_counter s + 1)"
proof -
  define e where "e = (priority pol (ts ! r), arrival_time (ts ! r), task_counter s, r)"
  have "cnt e = task_counter s" by (simp add: e_def cnt_def)
  from heappush_ok [OF assms(2) this] obtain q' where
    r: "heappush (ready_queue s) e = Inr q'" "mset q' = add_mset e (mset (ready_queue s))"
       "queue_ok q' (task_counter s + 1)" by blast
  have "add_task pol s ts r =
          Inr (s\<lparr>task_counter := task_counter s + 1, ready_queue := q'\<rparr>,
               ts[r := (ts ! r)\<lparr>counter := task_counter s\<rparr>])"
    using assms(1) r(1) by (simp add: add_task_def Let_def e_def)
  with r show ?thesis unfolding e_def by blast
qed

lemma get_next_task_char:
  assumes "pol \<noteq> Abstract" and "queue_ok (ready_queue s) (task_counter s)"
  shows "if ready_queue s = [] then get_next_task pol s = Inr (None, s)
         else (\<exists>q'. get_next_task pol s = Inr (Some (ref (ready_queue s ! 0)), s\<lparr>ready_queue := q'\<rparr>) \<and>
                 mset (ready_queue s) = add_mset (ready_queue s ! 0) (mset q') \<and>
                 queue_ok q' (task_counter s) \<and>
                 (\<forall>e\<in>set (ready_queue s). key (ready_queue s ! 0) \<le> key e))"
proof (cases "ready_queue s = []")
  case True
  then show ?thesis using assms(1) by (simp add: get_next_task_def)
next
  case False
  from heappop_ok [OF assms(2) False] obtain q' where
    r: "heappop (ready_queue s) = Inr (ready_queue s ! 0, q')"
       "mset (ready_queue s) = add_mset (ready_queue s ! 0) (mset q')"
       "queue_ok q' (task_counter s)" "\<forall>e\<in>set (ready_queue s). key (ready_queue s ! 0) \<le> key e"
    by blast
  have "get_next_task pol s = Inr (Some (ref (ready_queue s ! 0)), s\<lparr>ready_queue := q'\<rparr>)"
    using assms(1) False r(1) by (simp add: get_next_task_def)
  with r False show ?thesis by auto
qed

lemma mset_add_set:
  assumes "mset q' = add_mset e (mset q)"
  shows "set q' = insert e (set q)"
proof -
  from assms have "mset q' = mset (e # q)" by simp
  then have "set q' = set (e # q)" by (rule mset_eq_setD)
  then show ?thesis by simp
qed

lemma mset_add_distinct_ref:
  assumes "mset q' = add_mset e (mset q)"
  shows "distinct (map ref q') \<longleftrightarrow> ref e \<notin> ref ` set q \<and> distinct (map ref q)"
proof -
  from assms have "mset (map ref q') = mset (map ref (e # q))" by simp
  then have "distinct (map ref q') \<longleftrightarrow> distinct (map ref (e # q))"
    by (rule mset_eq_imp_distinct_iff)
  then show ?thesis by simp
qed

lemma sinv_admit:
  assumes "sinv None q n cs len i" and "i < len"
    and "mset q' = add_mset e (mset q)" and "ref e = i" and "queue_ok q' n'"
  shows "sinv None q' n' cs len (Suc i)"
proof -
  have s: "set q' = insert e (set q)" using assms(3) by (rule mset_add_set)
  have u: "ref ` set q \<union> set cs = {r. r < i}" and dj: "ref ` set q \<inter> set cs = {}"
    using assms(1) by (simp_all add: sinv_def)
  then have ni: "i \<notin> ref ` set q" "i \<notin> set cs" by auto
  have d: "distinct (map ref q')"
    using mset_add_distinct_ref [OF assms(3)] ni assms(1,4) by (simp add: sinv_def)
  have "ref ` set q' \<union> set cs = {r. r < Suc i}"
    using s u assms(4) by auto
  moreover have "ref ` set q' \<inter> set cs = {}" using s dj ni assms(4) by auto
  ultimately show ?thesis using assms d by (simp add: sinv_def)
qed

lemma sinv_push_back:
  assumes "sinv (Some r) q n cs len i"
    and "mset q' = add_mset e (mset q)" and "ref e = r" and "queue_ok q' n'"
  shows "sinv None q' n' cs len i"
proof -
  have s: "set q' = insert e (set q)" using assms(2) by (rule mset_add_set)
  have u: "ref ` set q \<union> set cs \<union> {r} = {r. r < i}" and dj: "ref ` set q \<inter> set cs = {}"
    and nr: "r \<notin> ref ` set q" "r \<notin> set cs"
    using assms(1) by (auto simp: sinv_def)
  have d: "distinct (map ref q')"
    using mset_add_distinct_ref [OF assms(2)] nr assms(1,3) by (simp add: sinv_def)
  have "ref ` set q' \<union> set cs = {r. r < i}"
    using s u assms(3) by auto
  moreover have "ref ` set q' \<inter> set cs = {}" using s dj nr assms(3) by auto
  ultimately show ?thesis using assms d by (simp add: sinv_def)
qed

lemma sinv_pop:
  assumes "sinv None q n cs len i"
    and "mset q = add_mset e (mset q')" and "queue_ok q' n"
  shows "sinv (Some (ref e)) q' n cs len i"
proof -
  have s: "set q = insert e (set q')" using assms(2) by (rule mset_add_set)
  have u: "ref ` set q \<union> set cs = {r. r < i}" and dj: "ref ` set q \<inter> set cs = {}"
    using assms(1) by (simp_all add: sinv_def)
  have d: "ref e \<notin> ref ` set q'" "distinct (map ref q')"
    using mset_add_distinct_ref [OF assms(2)] assms(1) by (simp_all add: sinv_def)
  have "ref ` set q' \<union> set cs \<union> {ref e} = {r. r < i}" using s u by auto
  moreover have "ref ` set q' \<inter> set cs = {}" using s dj by auto
  moreover have "ref e \<notin> set cs" using s dj by auto
  ultimately show ?thesis using assms d by (simp add: sinv_def)
qed

lemma sinv_complete:
  assumes "sinv (Some r) q n cs len i"
  shows "sinv None q n (cs @ [r]) len i"
  using assms by (auto simp: sinv_def)

lemma sinv_cur:
  assumes "sinv (Some r) q n cs len i"
  shows "r < i" and "r < len" and "r \<notin> set cs"
  using assms by (auto simp: sinv_def)

lemma clr_counter [simp]: "clr (t\<lparr>counter := c\<rparr>) = clr t"
  by (simp add: clr_def)

lemma execute_char:
  assumes pol: "pol \<noteq> Abstract" and ok: "queue_ok (ready_queue s) (task_counter s)"
    and r: "r < length ts"
  shows "\<exists>s' ts'. execute pol s ts r = Inr (s', ts') \<and> time s' = time s \<and>
           history s' = history s @ [(time s, time s + 1, task_id (ts ! r))] \<and>
           length ts' = length ts \<and> (\<forall>j. j \<noteq> r \<longrightarrow> ts' ! j = ts ! j) \<and>
           clr (ts' ! r) = clr (ran (time s) (ts ! r)) \<and>
           (if remaining_time (ts ! r) - 1 = 0 then
              ready_queue s' = ready_queue s \<and> task_counter s' = task_counter s \<and>
              completed_tasks s' = completed_tasks s @ [r] \<and>
              missed_deadlines s' =
                (if time s + 1 > absolute_deadline (ts ! r) then missed_deadlines s + 1
                 else missed_deadlines s)
            else
              completed_tasks s' = completed_tasks s \<and>
              missed_deadlines s' = missed_deadlines s \<and>
              (\<exists>e. ref e = r \<and> mset (ready_queue s') = add_mset e (mset (ready_queue s))) \<and>
              queue_ok (ready_queue s') (task_counter s'))"
proof (cases "remaining_time (ts ! r) - 1 = 0")
  case True
  then show ?thesis using r
    by (auto simp: execute_def ran_def Let_def)
next
  case False
  define t1 where "t1 = (if start_time (ts ! r) = - 1 then (ts ! r)\<lparr>start_time := time s\<rparr> else ts ! r)"
  define t2 where "t2 = t1\<lparr>remaining_time := remaining_time t1 - 1\<rparr>"
  define s1 where "s1 = s\<lparr>history := history s @ [(time s, time s + 1, task_id t1)]\<rparr>"
  have t2: "t2 = ran (time s) (ts ! r)" using False by (simp add: ran_def t2_def t1_def Let_def)
  have ex: "execute pol s ts r = add_task pol s1 (ts[r := t2]) r"
    using False pol by (simp add: execute_def push_back_def Let_def t1_def t2_def s1_def)
  have ok1: "queue_ok (ready_queue s1) (task_counter s1)" using ok by (simp add: s1_def)
  from add_task_char [OF pol ok1, of "ts[r := t2]" r] obtain q' where
    a: "add_task pol s1 (ts[r := t2]) r =
          Inr (s1\<lparr>task_counter := task_counter s1 + 1, ready_queue := q'\<rparr>,
               (ts[r := t2])[r := ((ts[r := t2]) ! r)\<lparr>counter := task_counter s1\<rparr>])"
     and m: "mset q' = add_mset (priority pol ((ts[r := t2]) ! r), arrival_time ((ts[r := t2]) ! r),
                 task_counter s1, r) (mset (ready_queue s1))"
     and q: "queue_ok q' (task_counter s1 + 1)"
    by blast
  have id: "task_id t1 = task_id (ts ! r)" by (simp add: t1_def)
  show ?thesis
    unfolding ex a using False m q r t2 id
    by (auto simp: s1_def ref_def intro!: exI)
qed

lemma admit_arrivals_char:
  assumes "pol \<noteq> Abstract"
    and "sinv None (ready_queue s) (task_counter s) (completed_tasks s) (length ts) i"
  shows "\<exists>s' ts' i'. admit_arrivals pol s ts i = Inr (s', ts', i') \<and>
           sinv None (ready_queue s') (task_counter s') (completed_tasks s') (length ts') i' \<and>
           time s' = time s \<and> history s' = history s \<and>
           completed_tasks s' = completed_tasks s \<and> missed_deadlines s' = missed_deadlines s \<and>
           map clr ts' = map clr ts"
  using assms(2)
proof (induction "length ts - i" arbitrary: s ts i rule: less_induct)
  case less
  show ?case
  proof (cases "i < length ts \<and> arrival_time (ts ! i) \<le> time s")
    case False
    then have "admit_arrivals pol s ts i = Inr (s, ts, i)"
      unfolding admit_arrivals.simps [of pol s ts i] by auto
    then show ?thesis using less.prems by simp
  next
    case True
    have ok: "queue_ok (ready_queue s) (task_counter s)" using less.prems by (simp add: sinv_def)
    define ts1 where "ts1 = ts[i := (ts ! i)\<lparr>counter := task_counter s\<rparr>]"
    from add_task_char [OF assms(1) ok, of ts i] obtain q' where
      a: "add_task pol s ts i = Inr (s\<lparr>task_counter := task_counter s + 1, ready_queue := q'\<rparr>, ts1)"
      and m: "mset q' = add_mset (priority pol (ts ! i), arrival_time (ts ! i), task_counter s, i)
                 (mset (ready_queue s))"
      and q: "queue_ok q' (task_counter s + 1)"
      unfolding ts1_def by blast
    define s1 where "s1 = s\<lparr>task_counter := task_counter s + 1, ready_queue := q'\<rparr>"
    have unf: "admit_arrivals pol s ts i = admit_arrivals pol s1 ts1 (i + 1)"
      unfolding admit_arrivals.simps [of pol s ts i] using True a by (simp add: s1_def)
    have inv1: "sinv None (ready_queue s1) (task_counter s1) (completed_tasks s1) (length ts1) (i + 1)"
      using sinv_admit [OF less.prems _ m _ q] True by (simp add: s1_def ts1_def ref_def)
    have "length ts1 - (i + 1) < length ts - i" using True by (auto simp: ts1_def)
    from less.hyps [OF this inv1] obtain s' ts' i' where
      r: "admit_arrivals pol s1 ts1 (i + 1) = Inr (s', ts', i')"
         "sinv None (ready_queue s') (task_counter s') (completed_tasks s') (length ts') i'"
         "time s' = time s1" "history s' = history s1" "completed_tasks s' = completed_tasks s1"
         "missed_deadlines s' = missed_deadlines s1" "map clr ts' = map clr ts1"
      by blast
    have "map clr ts1 = map clr ts"
      using True by (simp add: ts1_def map_update list_eq_iff_nth_eq nth_list_update)
    with r unf show ?thesis by (simp add: s1_def)
  qed
qed

lemma map_clr_nth:
  "map clr ts' = map clr ts \<Longrightarrow> j < length ts \<Longrightarrow> clr (ts' ! j) = clr (ts ! j)"
  by (metis length_map nth_map)

lemma clr_field:
  assumes "clr t' = clr t"
  shows "task_id t' = task_id t" and "arrival_time t' = arrival_time t"
    and "burst_time t' = burst_time t" and "remaining_time t' = remaining_time t"
    and "deadline t' = deadline t" and "period t' = period t"
    and "absolute_deadline t' = absolute_deadline t" and "start_time t' = start_time t"
    and "completion_time t' = completion_time t" and "missed_deadline t' = missed_deadline t"
proof -
  have "task_id (clr t') = task_id (clr t)" "arrival_time (clr t') = arrival_time (clr t)"
    "burst_time (clr t') = burst_time (clr t)" "remaining_time (clr t') = remaining_time (clr t)"
    "deadline (clr t') = deadline (clr t)" "period (clr t') = period (clr t)"
    "absolute_deadline (clr t') = absolute_deadline (clr t)" "start_time (clr t') = start_time (clr t)"
    "completion_time (clr t') = completion_time (clr t)" "missed_deadline (clr t') = missed_deadline (clr t)"
    using assms by simp_all
  then show "task_id t' = task_id t" and "arrival_time t' = arrival_time t"
    and "burst_time t' = burst_time t" and "remaining_time t' = remaining_time t"
    and "deadline t' = deadline t" and "period t' = period t"
    and "absolute_deadline t' = absolute_deadline t" and "start_time t' = start_time t"
    and "completion_time t' = completion_time t" and "missed_deadline t' = missed_deadline t"
    by (simp_all add: clr_def)
qed

lemma ran_counter: "ran now (t\<lparr>counter := c\<rparr>) = (ran now t)\<lparr>counter := c\<rparr>"
  by (simp add: ran_def Let_def)

lemma clr_ran:
  assumes "clr t' = clr t"
  shows "clr (ran now t') = clr (ran now t)"
proof -
  have "t' = t\<lparr>counter := counter t'\<rparr>"
    using assms by (cases t; cases t') (simp add: clr_def)
  then have "ran now t' = (ran now t)\<lparr>counter := counter t'\<rparr>"
    using ran_counter [where now = now and t = t and c = "counter t'"] by simp
  then show ?thesis by simp
qed

lemma run_step_char:
  assumes pol: "pol \<noteq> Abstract" and inv: "loop_inv st"
  shows "\<exists>cur st'. run_step pol st = Inr st' \<and> step_ok cur st st' \<and> loop_inv st'"
proof -
  obtain s ts i where st: "st = (s, ts, i)" by (cases st)
  from inv st have inv0: "sinv None (ready_queue s) (task_counter s) (completed_tasks s) (length ts) i"
    by (simp add: loop_inv_def)
  from admit_arrivals_char [OF pol inv0] obtain s1 ts1 i1 where
    a: "admit_arrivals pol s ts i = Inr (s1, ts1, i1)"
    and inv1: "sinv None (ready_queue s1) (task_counter s1) (completed_tasks s1) (length ts1) i1"
    and f1: "time s1 = time s" "history s1 = history s" "completed_tasks s1 = completed_tasks s"
      "missed_deadlines s1 = missed_deadlines s"
    and c1: "map clr ts1 = map clr ts"
    by blast
  have len1: "length ts1 = length ts" using c1 by (metis length_map)
  have ok1: "queue_ok (ready_queue s1) (task_counter s1)" using inv1 by (simp add: sinv_def)
  note g = get_next_task_char [OF pol ok1]
  show ?thesis
  proof (cases "ready_queue s1 = []")
    case True
    with g have gn: "get_next_task pol s1 = Inr (None, s1)" by simp
    define s' where "s' = s1\<lparr>history := history s1 @ [(time s1, time s1 + 1, ''IDLE'')],
                              time := time s1 + 1\<rparr>"
    have rs: "run_step pol st = Inr (s', ts1, i1)"
      using a gn by (simp add: run_step_def st s'_def)
    have "step_ok None st (s', ts1, i1)"
      using f1 len1 map_clr_nth [OF c1] by (simp add: step_ok_def st s'_def)
    moreover have "loop_inv (s', ts1, i1)" using inv1 by (simp add: loop_inv_def s'_def)
    ultimately show ?thesis using rs by blast
  next
    case False
    define e where "e = ready_queue s1 ! 0"
    define r where "r = ref e"
    from g False obtain q2 where
      gn: "get_next_task pol s1 = Inr (Some r, s1\<lparr>ready_queue := q2\<rparr>)"
      and m2: "mset (ready_queue s1) = add_mset e (mset q2)"
      and ok2: "queue_ok q2 (task_counter s1)"
      unfolding e_def r_def by auto
    define s2 where "s2 = s1\<lparr>ready_queue := q2\<rparr>"
    have inv2: "sinv (Some r) (ready_queue s2) (task_counter s2) (completed_tasks s2) (length ts1) i1"
      using sinv_pop [OF inv1 m2 ok2] by (simp add: s2_def r_def)
    note cur = sinv_cur [OF inv2]
    have ok2': "queue_ok (ready_queue s2) (task_counter s2)" using ok2 by (simp add: s2_def)
    from execute_char [OF pol ok2' cur(2)] obtain s3 ts3 where
      ex: "execute pol s2 ts1 r = Inr (s3, ts3)"
      and t3: "time s3 = time s2"
      and h3: "history s3 = history s2 @ [(time s2, time s2 + 1, task_id (ts1 ! r))]"
      and l3: "length ts3 = length ts1"
      and o3: "\<forall>j. j \<noteq> r \<longrightarrow> ts3 ! j = ts1 ! j"
      and c3: "clr (ts3 ! r) = clr (ran (time s2) (ts1 ! r))"
      and b3: "if remaining_time (ts1 ! r) - 1 = 0 then
              ready_queue s3 = ready_queue s2 \<and> task_counter s3 = task_counter s2 \<and>
              completed_tasks s3 = completed_tasks s2 @ [r] \<and>
              missed_deadlines s3 =
                (if time s2 + 1 > absolute_deadline (ts1 ! r) then missed_deadlines s2 + 1
                 else missed_deadlines s2)
            else
              completed_tasks s3 = completed_tasks s2 \<and>
              missed_deadlines s3 = missed_deadlines s2 \<and>
              (\<exists>e. ref e = r \<and> mset (ready_queue s3) = add_mset e (mset (ready_queue s2))) \<and>
              queue_ok (ready_queue s3) (task_counter s3)"
      by blast
    define s' where "s' = s3\<lparr>time := time s3 + 1\<rparr>"
    have rs: "run_step pol st = Inr (s', ts3, i1)"
      using a gn ex by (simp add: run_step_def st s'_def s2_def)
    have inv3: "sinv None (ready_queue s3) (task_counter s3) (completed_tasks s3) (length ts3) i1"
    proof (cases "remaining_time (ts1 ! r) - 1 = 0")
      case True
      with b3 sinv_complete [OF inv2] l3 show ?thesis by simp
    next
      case False
      with b3 obtain e' where "ref e' = r" "mset (ready_queue s3) = add_mset e' (mset (ready_queue s2))"
        "queue_ok (ready_queue s3) (task_counter s3)" "completed_tasks s3 = completed_tasks s2"
        by auto
      with sinv_push_back [OF inv2, of "ready_queue s3" e' "task_counter s3"] l3
      show ?thesis by simp
    qed
    have rl: "r < length ts" using cur(2) len1 by simp
    have cr: "clr (ts1 ! r) = clr (ts ! r)" using c1 rl by (rule map_clr_nth)
    note fr = clr_field [OF cr]
    have ran_eq: "clr (ran (time s2) (ts1 ! r)) = clr (ran (time s) (ts ! r))"
      using clr_ran [OF cr] f1 by (simp add: s2_def)
    have A: "time s' = time s + 1" using t3 f1 by (simp add: s'_def s2_def)
    have B: "history s' = history s @ [(time s, time s + 1, task_id (ts ! r))]"
      using h3 f1 fr(1) by (simp add: s'_def s2_def)
    have C: "clr (ts3 ! j) = clr (ts ! j)" if "j < length ts" "j \<noteq> r" for j
      using o3 that map_clr_nth [OF c1, of j] by simp
    have D: "clr (ts3 ! r) = clr (ran (time s) (ts ! r))" using c3 ran_eq by simp
    have E: "completed_tasks s' =
            (if remaining_time (ts ! r) - 1 = 0 then completed_tasks s @ [r] else completed_tasks s)"
      using b3 f1 fr(4) by (simp add: s'_def s2_def split: if_splits)
    have F: "missed_deadlines s' =
            (if remaining_time (ts ! r) - 1 = 0 \<and> time s + 1 > absolute_deadline (ts ! r)
             then missed_deadlines s + 1 else missed_deadlines s)"
      using b3 f1 fr(4) fr(7) by (simp add: s'_def s2_def split: if_splits)
    have G: "r \<notin> set (completed_tasks s)" using cur(3) f1 by (simp add: s2_def)
    have "step_ok (Some r) st (s', ts3, i1)"
      unfolding step_ok_def st using A B C D E F G rl l3 len1 by simp
    moreover have "loop_inv (s', ts3, i1)" using inv3 by (simp add: loop_inv_def s'_def)
    ultimately show ?thesis using rs by blast
  qed
qed

section \<open>The loop of \<open>run\<close>\<close>

text \<open>
  A run with bound \<open>m\<close> passes through the final state of the run with any smaller bound
  \<open>k\<close>; and a property kept by every iteration holds when the loop ends, which it
  always does without an exception for the two policies.
\<close>

lemma run_loop_split:
  "k \<le> m \<Longrightarrow> run_loop pol st m =
     (case run_loop pol st k of Inl e \<Rightarrow> Inl e | Inr st' \<Rightarrow> run_loop pol st' m)"
proof (induction pol st k rule: run_loop.induct)
  case (1 pol st k)
  show ?case
  proof (cases "time (fst st) < k")
    case False
    then have "run_loop pol st k = Inr st" by (subst run_loop.simps) simp
    then show ?thesis by simp
  next
    case True
    show ?thesis
    proof (cases "run_step pol st")
      case (Inl e)
      then have "run_loop pol st k = Inl e" "run_loop pol st m = Inl e"
        using True "1.prems" by (subst run_loop.simps, simp)+
      then show ?thesis by simp
    next
      case (Inr st1)
      then have "run_loop pol st k = run_loop pol st1 k" "run_loop pol st m = run_loop pol st1 m"
        using True "1.prems" by (subst run_loop.simps, simp)+
      then show ?thesis using "1.IH" [OF True Inr "1.prems"] by simp
    qed
  qed
qed

lemma run_loop_rule:
  assumes pol: "pol \<noteq> Abstract"
    and step: "\<And>cur st st'. loop_inv st \<Longrightarrow> P st \<Longrightarrow> step_ok cur st st' \<Longrightarrow> loop_inv st' \<Longrightarrow> P st'"
    and init: "loop_inv st" "P st"
  shows "\<exists>st'. run_loop pol st m = Inr st' \<and> loop_inv st' \<and> P st' \<and>
           time (fst st') = max (time (fst st)) m"
  using init
proof (induction "nat (m - time (fst st))" arbitrary: st rule: less_induct)
  case less
  show ?case
  proof (cases "time (fst st) < m")
    case False
    then have "run_loop pol st m = Inr st" by (subst run_loop.simps) simp
    then show ?thesis using less.prems False by simp
  next
    case True
    from run_step_char [OF pol less.prems(1)] obtain cur st1 where
      r: "run_step pol st = Inr st1" "step_ok cur st st1" "loop_inv st1" by blast
    have t: "time (fst st1) = time (fst st) + 1"
      using r(2) by (cases st; cases st1) (simp add: step_ok_def)
    have P1: "P st1" using step [OF less.prems r(2,3)] .
    have "nat (m - time (fst st1)) < nat (m - time (fst st))" using t True by simp
    from less.hyps [OF this r(3) P1] obtain st' where
      "run_loop pol st1 m = Inr st'" "loop_inv st'" "P st'" "time (fst st') = max (time (fst st1)) m"
      by blast
    moreover have "run_loop pol st m = run_loop pol st1 m"
      using True r(1) by (subst run_loop.simps) simp
    ultimately show ?thesis using t True by auto
  qed
qed

lemma loop_inv_init: "loop_inv (Scheduler_init, ts, 0)"
  by (simp add: loop_inv_def sinv_def queue_ok_def heap_inv_def Scheduler_init_def)

lemma ran_static: "static (ran now t) = static t"
  by (simp add: static_def ran_def Let_def)

lemma clr_static: "clr t' = clr t \<Longrightarrow> static t' = static t"
  using clr_field [of t' t] by (simp add: static_def)

lemma step_ok_static:
  assumes "step_ok cur (s, ts, i) (s', ts', i')"
  shows "map static ts' = map static ts"
proof (rule nth_equalityI)
  show "length (map static ts') = length (map static ts)"
    using assms by (simp add: step_ok_def)
next
  fix j assume "j < length (map static ts')"
  then have j: "j < length ts" "j < length ts'" using assms by (simp_all add: step_ok_def)
  have "static (ts' ! j) = static (ts ! j)"
  proof (cases "Some j = cur")
    case False
    then have "clr (ts' ! j) = clr (ts ! j)" using assms j by (simp add: step_ok_def)
    then show ?thesis by (rule clr_static)
  next
    case True
    then have "clr (ts' ! j) = clr (ran (time s) (ts ! j))"
      using assms by (auto simp: step_ok_def)
    then show ?thesis using clr_static ran_static by metis
  qed
  then show "map static ts' ! j = map static ts ! j" using j by simp
qed

lemma static_task_id:
  "map static ts' = map static ts \<Longrightarrow> map task_id ts' = map task_id ts"
proof -
  assume a: "map static ts' = map static ts"
  have "map task_id ts' = map fst (map static ts')" by (simp add: static_def comp_def)
  also have "\<dots> = map fst (map static ts)" using a by simp
  also have "\<dots> = map task_id ts" by (simp add: static_def comp_def)
  finally show ?thesis .
qed

lemma hist_ok_snoc:
  assumes "hist_ok ids h" and "x = ''IDLE'' \<or> x \<in> ids" and "t = int (length h)"
  shows "hist_ok ids (h @ [(t, t + 1, x)])"
  using assms by (auto simp: hist_ok_def nth_append less_Suc_eq)

lemma hinv_step:
  assumes "hinv ts0 st" and "step_ok cur st st'"
  shows "hinv ts0 st'"
proof -
  obtain s ts i where st: "st = (s, ts, i)" by (cases st)
  obtain s' ts' i' where st': "st' = (s', ts', i')" by (cases st')
  from assms(1) st have h: "map static ts = map static ts0" "0 \<le> time s"
    "length (history s) = nat (time s)" "hist_ok (task_id ` set ts0) (history s)"
    by (simp_all add: hinv_def)
  have ids: "map task_id ts = map task_id ts0" using h(1) by (rule static_task_id)
  have len: "length ts = length ts0" using ids by (metis length_map)
  define x where "x = (case cur of None \<Rightarrow> ''IDLE'' | Some r \<Rightarrow> task_id (ts ! r))"
  from assms(2) st st' have so: "time s' = time s + 1"
    "history s' = history s @ [(time s, time s + 1, x)]"
    by (simp_all add: step_ok_def x_def)
  have "x = ''IDLE'' \<or> x \<in> task_id ` set ts0"
  proof (cases cur)
    case None
    then show ?thesis by (simp add: x_def)
  next
    case (Some r)
    then have "r < length ts" using assms(2) st st' by (simp add: step_ok_def)
    then have "task_id (ts ! r) = map task_id ts0 ! r" "r < length ts0"
      using ids len by (metis nth_map, simp)
    then show ?thesis using Some by (simp add: x_def)
  qed
  moreover have "time s = int (length (history s))" using h by simp
  ultimately have "hist_ok (task_id ` set ts0) (history s')"
    using hist_ok_snoc [OF h(4)] so by simp
  moreover have "map static ts' = map static ts0"
    using step_ok_static assms(2) st st' h(1) by metis
  ultimately show ?thesis using so h by (simp add: hinv_def st')
qed

lemma run_hinv:
  assumes "pol \<noteq> Abstract"
  shows "\<exists>s ts i. run_loop pol (Scheduler_init, sort_key arrival_time tasks, 0) max_time = Inr (s, ts, i) \<and>
           loop_inv (s, ts, i) \<and> hinv (sort_key arrival_time tasks) (s, ts, i) \<and>
           time s = max 0 max_time"
proof -
  define st0 where "st0 = (Scheduler_init, sort_key arrival_time tasks, 0::nat)"
  have "hinv (sort_key arrival_time tasks) st0"
    by (simp add: hinv_def st0_def Scheduler_init_def hist_ok_def)
  from run_loop_rule [of pol "hinv (sort_key arrival_time tasks)" st0 max_time, OF assms _ _ this]
    hinv_step loop_inv_init [of "sort_key arrival_time tasks"]
  obtain st' where "run_loop pol st0 max_time = Inr st'" "loop_inv st'"
    "hinv (sort_key arrival_time tasks) st'" "time (fst st') = max (time (fst st0)) max_time"
    unfolding st0_def by blast
  then show ?thesis by (cases st') (auto simp: st0_def Scheduler_init_def)
qed

lemma run_loop_history_prefix:
  assumes pol: "pol \<noteq> Abstract" and inv: "loop_inv st" and n: "n \<le> length (history (fst st))"
  shows "\<exists>st'. run_loop pol st m = Inr st' \<and> loop_inv st' \<and>
           take n (history (fst st')) = take n (history (fst st))"
proof -
  define P where "P = (\<lambda>x :: scheduler \<times> task list \<times> nat.
     n \<le> length (history (fst x)) \<and> take n (history (fst x)) = take n (history (fst st)))"
  have step: "P b" if "loop_inv a" "P a" "step_ok cur a b" "loop_inv b" for cur a b
  proof -
    obtain s ts i where a: "a = (s, ts, i)" by (cases a)
    obtain s' ts' i' where b: "b = (s', ts', i')" by (cases b)
    from that(3) have "\<exists>x. history s' = history s @ [x]" unfolding a b step_ok_def by simp
    then obtain x where "history s' = history s @ [x]" ..
    then show ?thesis using that(2) a b by (simp add: P_def)
  qed
  have "P st" using n by (simp add: P_def)
  have "\<exists>st'. run_loop pol st m = Inr st' \<and> loop_inv st' \<and> P st' \<and>
           time (fst st') = max (time (fst st)) m"
    by (rule run_loop_rule [where P = P, OF pol step inv \<open>P st\<close>])
  then obtain st' where "run_loop pol st m = Inr st'" "loop_inv st'" "P st'" by blast
  then show ?thesis unfolding P_def by blast
qed

lemma ran_fields:
  "remaining_time (ran now t) = remaining_time t - 1"
  "completion_time (ran now t) = (if remaining_time t - 1 = 0 then now + 1 else completion_time t)"
  "missed_deadline (ran now t) =
     (if remaining_time t - 1 = 0 \<and> now + 1 > absolute_deadline t then True else missed_deadline t)"
  "absolute_deadline (ran now t) = absolute_deadline t"
  "burst_time (ran now t) = burst_time t"
  "task_id (ran now t) = task_id t"
  by (simp_all add: ran_def Let_def)

lemma step_ok_other:
  assumes "step_ok cur (s, ts, i) (s', ts', i')" and "j < length ts" and "Some j \<noteq> cur"
  shows "remaining_time (ts' ! j) = remaining_time (ts ! j)"
    and "completion_time (ts' ! j) = completion_time (ts ! j)"
    and "missed_deadline (ts' ! j) = missed_deadline (ts ! j)"
    and "absolute_deadline (ts' ! j) = absolute_deadline (ts ! j)"
    and "burst_time (ts' ! j) = burst_time (ts ! j)"
    and "task_id (ts' ! j) = task_id (ts ! j)"
proof -
  have "clr (ts' ! j) = clr (ts ! j)" using assms by (simp add: step_ok_def)
  from clr_field [OF this]
  show "remaining_time (ts' ! j) = remaining_time (ts ! j)"
    and "completion_time (ts' ! j) = completion_time (ts ! j)"
    and "missed_deadline (ts' ! j) = missed_deadline (ts ! j)"
    and "absolute_deadline (ts' ! j) = absolute_deadline (ts ! j)"
    and "burst_time (ts' ! j) = burst_time (ts ! j)"
    and "task_id (ts' ! j) = task_id (ts ! j)"
    by simp_all
qed

lemma step_ok_cur:
  assumes "step_ok (Some r) (s, ts, i) (s', ts', i')"
  shows "remaining_time (ts' ! r) = remaining_time (ts ! r) - 1"
    and "completion_time (ts' ! r) =
           (if remaining_time (ts ! r) - 1 = 0 then time s + 1 else completion_time (ts ! r))"
    and "missed_deadline (ts' ! r) =
           (if remaining_time (ts ! r) - 1 = 0 \<and> time s + 1 > absolute_deadline (ts ! r) then True
            else missed_deadline (ts ! r))"
    and "absolute_deadline (ts' ! r) = absolute_deadline (ts ! r)"
    and "burst_time (ts' ! r) = burst_time (ts ! r)"
    and "task_id (ts' ! r) = task_id (ts ! r)"
proof -
  have "clr (ts' ! r) = clr (ran (time s) (ts ! r))" using assms by (simp add: step_ok_def)
  from clr_field [OF this]
  show "remaining_time (ts' ! r) = remaining_time (ts ! r) - 1"
    and "completion_time (ts' ! r) =
           (if remaining_time (ts ! r) - 1 = 0 then time s + 1 else completion_time (ts ! r))"
    and "missed_deadline (ts' ! r) =
           (if remaining_time (ts ! r) - 1 = 0 \<and> time s + 1 > absolute_deadline (ts ! r) then True
            else missed_deadline (ts ! r))"
    and "absolute_deadline (ts' ! r) = absolute_deadline (ts ! r)"
    and "burst_time (ts' ! r) = burst_time (ts ! r)"
    and "task_id (ts' ! r) = task_id (ts ! r)"
    by (simp_all only: ran_fields)
qed

lemma tinv_step:
  assumes inv: "tinv st" and step: "step_ok cur st st'"
  shows "tinv st'"
proof -
  obtain s ts i where st: "st = (s, ts, i)" by (cases st)
  obtain s' ts' i' where st': "st' = (s', ts', i')" by (cases st')
  note so = step [unfolded st st']
  from inv st have t0: "0 \<le> time s"
    and nc: "\<And>r. r < length ts \<Longrightarrow> r \<notin> set (completed_tasks s) \<Longrightarrow>
               completion_time (ts ! r) = - 1 \<and> \<not> missed_deadline (ts ! r)"
    and co: "\<And>r. r \<in> set (completed_tasks s) \<Longrightarrow> r < length ts \<and> remaining_time (ts ! r) = 0 \<and>
         1 \<le> completion_time (ts ! r) \<and> completion_time (ts ! r) \<le> time s \<and>
         (missed_deadline (ts ! r) \<longleftrightarrow> absolute_deadline (ts ! r) < completion_time (ts ! r))"
    and md: "missed_deadlines s = int (length (filter (\<lambda>r. missed_deadline (ts ! r)) (completed_tasks s)))"
    by (simp_all add: tinv_def)
  from so have tm: "time s' = time s + 1" and len: "length ts' = length ts"
    by (simp_all add: step_ok_def)
  show ?thesis
  proof (cases cur)
    case None
    then have cs: "completed_tasks s' = completed_tasks s" and ms: "missed_deadlines s' = missed_deadlines s"
      using so by (simp_all add: step_ok_def)
    have oth: "Some j \<noteq> cur" for j :: nat using None by simp
    note f = step_ok_other [OF so _ oth]
    have "filter (\<lambda>r. missed_deadline (ts' ! r)) (completed_tasks s)
        = filter (\<lambda>r. missed_deadline (ts ! r)) (completed_tasks s)"
      by (rule filter_cong) (use co f(3) in auto)
    then have C: "missed_deadlines s' =
          int (length (filter (\<lambda>j. missed_deadline (ts' ! j)) (completed_tasks s')))"
      using cs ms md by simp
    have A: "completion_time (ts' ! j) = - 1 \<and> \<not> missed_deadline (ts' ! j)"
      if "j < length ts'" "j \<notin> set (completed_tasks s')" for j
      using that cs len nc [of j] f(2,3) [of j] by auto
    have B: "j < length ts' \<and> remaining_time (ts' ! j) = 0 \<and>
         1 \<le> completion_time (ts' ! j) \<and> completion_time (ts' ! j) \<le> time s' \<and>
         (missed_deadline (ts' ! j) \<longleftrightarrow> absolute_deadline (ts' ! j) < completion_time (ts' ! j))"
      if "j \<in> set (completed_tasks s')" for j
    proof -
      have in_old: "j \<in> set (completed_tasks s)" using that cs by simp
      show ?thesis using co [OF in_old] f(1,2,3,4) [of j] tm len by auto
    qed
    show ?thesis unfolding st' tinv_def using A B C t0 tm by auto
  next
    case (Some r)
    from so Some have r: "r < length ts" "r \<notin> set (completed_tasks s)"
      and cs: "completed_tasks s' =
            (if remaining_time (ts ! r) - 1 = 0 then completed_tasks s @ [r] else completed_tasks s)"
      and ms: "missed_deadlines s' =
            (if remaining_time (ts ! r) - 1 = 0 \<and> time s + 1 > absolute_deadline (ts ! r)
             then missed_deadlines s + 1 else missed_deadlines s)"
      by (simp_all add: step_ok_def)
    have oth: "Some j \<noteq> cur" if "j \<noteq> r" for j using Some that by simp
    note f = step_ok_other [OF so _ oth]
    note g = step_ok_cur [OF so [unfolded Some]]
    have fl: "filter (\<lambda>j. missed_deadline (ts' ! j)) (completed_tasks s)
        = filter (\<lambda>j. missed_deadline (ts ! j)) (completed_tasks s)"
      by (rule filter_cong) (use co f(3) r in auto)
    have old: "completion_time (ts ! r) = - 1" "\<not> missed_deadline (ts ! r)" using nc r by simp_all
    show ?thesis
    proof (cases "remaining_time (ts ! r) - 1 = 0")
      case True
      have A: "completion_time (ts' ! j) = - 1 \<and> \<not> missed_deadline (ts' ! j)"
        if "j < length ts'" "j \<notin> set (completed_tasks s')" for j
        using that cs True len nc [of j] f(2,3) [of j] by auto
      have B: "j < length ts' \<and> remaining_time (ts' ! j) = 0 \<and>
         1 \<le> completion_time (ts' ! j) \<and> completion_time (ts' ! j) \<le> time s' \<and>
         (missed_deadline (ts' ! j) \<longleftrightarrow> absolute_deadline (ts' ! j) < completion_time (ts' ! j))"
        if "j \<in> set (completed_tasks s')" for j
      proof (cases "j = r")
        case True
        then show ?thesis using g \<open>remaining_time (ts ! r) - 1 = 0\<close> old t0 tm len r by auto
      next
        case False
        then have "j \<in> set (completed_tasks s)" using that cs True by simp
        then show ?thesis using co [of j] f(1,2,3,4) [of j] False tm len by auto
      qed
      have C: "missed_deadlines s' =
          int (length (filter (\<lambda>j. missed_deadline (ts' ! j)) (completed_tasks s')))"
        using cs ms md True fl g(3) old by auto
      show ?thesis unfolding st' tinv_def using A B C t0 tm by auto
    next
      case False
      have A: "completion_time (ts' ! j) = - 1 \<and> \<not> missed_deadline (ts' ! j)"
        if "j < length ts'" "j \<notin> set (completed_tasks s')" for j
      proof (cases "j = r")
        case True
        then show ?thesis using g False old by simp
      next
        case ne: False
        then show ?thesis using that cs False len nc [of j] f(2,3) [of j] by auto
      qed
      have B: "j < length ts' \<and> remaining_time (ts' ! j) = 0 \<and>
         1 \<le> completion_time (ts' ! j) \<and> completion_time (ts' ! j) \<le> time s' \<and>
         (missed_deadline (ts' ! j) \<longleftrightarrow> absolute_deadline (ts' ! j) < completion_time (ts' ! j))"
        if "j \<in> set (completed_tasks s')" for j
      proof -
        have in_old: "j \<in> set (completed_tasks s)" using that cs False by simp
        then have "j \<noteq> r" using r by auto
        then show ?thesis using co [OF in_old] f(1,2,3,4) [of j] tm len by auto
      qed
      have C: "missed_deadlines s' =
          int (length (filter (\<lambda>j. missed_deadline (ts' ! j)) (completed_tasks s')))"
        using cs ms md False fl by simp
      show ?thesis unfolding st' tinv_def using A B C t0 tm by auto
    qed
  qed
qed

lemma fresh_make_tasks: "t \<in> set (make_tasks specs) \<Longrightarrow> fresh t"
  by (auto simp: make_tasks_def fresh_def Task_init_def)

lemma fresh_sorted: "t \<in> set (sort_key arrival_time (make_tasks specs)) \<Longrightarrow> fresh t"
  using fresh_make_tasks by simp

lemma pinv_step:
  assumes inv: "pinv st" and step: "step_ok cur st st'"
    and ids: "distinct (map task_id (fst (snd st)))" "''IDLE'' \<notin> task_id ` set (fst (snd st))"
  shows "pinv st'"
proof -
  obtain s ts i where st: "st = (s, ts, i)" by (cases st)
  obtain s' ts' i' where st': "st' = (s', ts', i')" by (cases st')
  note so = step [unfolded st st']
  note both = inv [unfolded st pinv_def prod.case]
  from both have pos: "\<And>r. r < length ts \<Longrightarrow> r \<notin> set (completed_tasks s) \<Longrightarrow> 0 < remaining_time (ts ! r)"
    and cnt: "\<And>r. r < length ts \<Longrightarrow> remaining_time (ts ! r) =
        burst_time (ts ! r) - int (length (filter (\<lambda>e. snd (snd e) = task_id (ts ! r)) (history s)))"
    by blast+
  from ids st have d: "distinct (map task_id ts)" and ni: "''IDLE'' \<notin> task_id ` set ts" by simp_all
  from so have len: "length ts' = length ts"
    and h: "history s' = history s @
        [(time s, time s + 1, case cur of None \<Rightarrow> ''IDLE'' | Some r \<Rightarrow> task_id (ts ! r))]"
    by (simp_all add: step_ok_def)
  show ?thesis
  proof (cases cur)
    case None
    then have cs: "completed_tasks s' = completed_tasks s" using so by (simp add: step_ok_def)
    have oth: "Some j \<noteq> cur" for j :: nat using None by simp
    note f = step_ok_other [OF so _ oth]
    have A: "0 < remaining_time (ts' ! j)" if "j < length ts'" "j \<notin> set (completed_tasks s')" for j
      using that pos [of j] f(1) [of j] cs len by simp
    have B: "remaining_time (ts' ! j) =
        burst_time (ts' ! j) - int (length (filter (\<lambda>e. snd (snd e) = task_id (ts' ! j)) (history s')))"
      if "j < length ts'" for j
    proof -
      have j: "j < length ts" using that len by simp
      then have "task_id (ts ! j) \<noteq> ''IDLE''" using ni by (metis image_eqI nth_mem)
      then show ?thesis using cnt [OF j] f(1,5,6) [OF j] h None by simp
    qed
    show ?thesis unfolding st' pinv_def using A B by simp
  next
    case (Some r)
    from so Some have r: "r < length ts" "r \<notin> set (completed_tasks s)"
      and cs: "completed_tasks s' =
            (if remaining_time (ts ! r) - 1 = 0 then completed_tasks s @ [r] else completed_tasks s)"
      by (simp_all add: step_ok_def)
    have oth: "Some j \<noteq> cur" if "j \<noteq> r" for j using Some that by simp
    note f = step_ok_other [OF so _ oth]
    note g = step_ok_cur [OF so [unfolded Some]]
    have A: "0 < remaining_time (ts' ! j)" if "j < length ts'" "j \<notin> set (completed_tasks s')" for j
    proof (cases "j = r")
      case True
      then have "remaining_time (ts ! r) - 1 \<noteq> 0" using that cs by (auto split: if_splits)
      then show ?thesis using True g(1) pos [OF r] by simp
    next
      case False
      then show ?thesis using that pos [of j] f(1) [of j] cs len by (auto split: if_splits)
    qed
    have B: "remaining_time (ts' ! j) =
        burst_time (ts' ! j) - int (length (filter (\<lambda>e. snd (snd e) = task_id (ts' ! j)) (history s')))"
      if "j < length ts'" for j
    proof (cases "j = r")
      case True
      then show ?thesis using cnt [OF r(1)] g(1,5,6) h Some by simp
    next
      case False
      have j: "j < length ts" using that len by simp
      have "task_id (ts ! j) \<noteq> task_id (ts ! r)"
        using d False j r nth_eq_iff_index_eq [of "map task_id ts" j r] by simp
      then show ?thesis using cnt [OF j] f(1,5,6) [OF j False] h Some by simp
    qed
    show ?thesis unfolding st' pinv_def using A B by simp
  qed
qed

lemma mono_from_step:
  assumes "mono_from ts1 st" and "step_ok cur st st'"
  shows "mono_from ts1 st'"
proof -
  obtain s ts i where st: "st = (s, ts, i)" by (cases st)
  obtain s' ts' i' where st': "st' = (s', ts', i')" by (cases st')
  note so = assms(2) [unfolded st st']
  from assms(1) st have len: "length ts = length ts1"
    and le: "\<And>j. j < length ts1 \<Longrightarrow> remaining_time (ts ! j) \<le> remaining_time (ts1 ! j)"
    by (simp_all add: mono_from_def)
  from so have len': "length ts' = length ts" by (simp add: step_ok_def)
  have "remaining_time (ts' ! j) \<le> remaining_time (ts1 ! j)" if j: "j < length ts1" for j
  proof (cases "Some j = cur")
    case False
    then show ?thesis using step_ok_other(1) [OF so _ False] le [OF j] j len by simp
  next
    case True
    then show ?thesis using step_ok_cur(1) [of j s ts i s' ts' i'] so le [OF j] by simp
  qed
  then show ?thesis using len len' by (simp add: mono_from_def st')
qed

lemma run_loop_invs:
  assumes pol: "pol \<noteq> Abstract" and li: "loop_inv st" and hi: "hinv ts0 st" and ti: "tinv st"
  shows "\<exists>st'. run_loop pol st m = Inr st' \<and> loop_inv st' \<and> hinv ts0 st' \<and> tinv st' \<and>
           mono_from (fst (snd st)) st' \<and> time (fst st') = max (time (fst st)) m \<and>
           (distinct (map task_id ts0) \<and> ''IDLE'' \<notin> task_id ` set ts0 \<and> pinv st \<longrightarrow> pinv st')"
proof -
  define wf where "wf \<longleftrightarrow> distinct (map task_id ts0) \<and> ''IDLE'' \<notin> task_id ` set ts0"
  define P where "P = (\<lambda>x. hinv ts0 x \<and> tinv x \<and> mono_from (fst (snd st)) x \<and> (wf \<and> pinv st \<longrightarrow> pinv x))"
  have step: "P b" if "loop_inv a" "P a" "step_ok cur a b" "loop_inv b" for cur a b
  proof -
    from that(2) have a: "hinv ts0 a" "tinv a" "mono_from (fst (snd st)) a" "wf \<and> pinv st \<longrightarrow> pinv a"
      by (simp_all add: P_def)
    have "pinv b" if w: "wf" "pinv st"
    proof -
      obtain s ts i where as: "a = (s, ts, i)" by (cases a)
      have "map static ts = map static ts0" using a(1) as by (simp add: hinv_def)
      then have "map task_id ts = map task_id ts0" by (rule static_task_id)
      then have "distinct (map task_id ts)" "''IDLE'' \<notin> task_id ` set ts"
        using w(1) unfolding wf_def by (simp, metis list.set_map)
      then show ?thesis using pinv_step [OF _ \<open>step_ok cur a b\<close>] a(4) w as by simp
    qed
    then show ?thesis
      unfolding P_def using hinv_step [OF a(1) that(3)] tinv_step [OF a(2) that(3)]
        mono_from_step [OF a(3) that(3)] by blast
  qed
  have "mono_from (fst (snd st)) st" by (cases st) (simp add: mono_from_def)
  then have "P st" using hi ti by (simp add: P_def)
  have "\<exists>st'. run_loop pol st m = Inr st' \<and> loop_inv st' \<and> P st' \<and>
           time (fst st') = max (time (fst st)) m"
    by (rule run_loop_rule [where P = P, OF pol step li \<open>P st\<close>])
  then show ?thesis unfolding P_def wf_def by blast
qed

lemma hinv_init: "hinv ts0 (Scheduler_init, ts0, 0)"
  by (simp add: hinv_def Scheduler_init_def hist_ok_def)

lemma tinv_init: "\<forall>t\<in>set ts0. fresh t \<Longrightarrow> tinv (Scheduler_init, ts0, 0)"
  by (simp add: tinv_def Scheduler_init_def fresh_def)

lemma pinv_init:
  "\<forall>t\<in>set ts0. fresh t \<Longrightarrow> \<forall>t\<in>set ts0. 0 < burst_time t \<Longrightarrow> pinv (Scheduler_init, ts0, 0)"
  by (simp add: pinv_def Scheduler_init_def fresh_def)

lemma run_make_tasks_invs:
  assumes pol: "pol \<noteq> Abstract"
  shows "\<exists>s ts i. run_loop pol (Scheduler_init, sort_key arrival_time (make_tasks specs), 0) m
              = Inr (s, ts, i) \<and>
           run pol Scheduler_init (make_tasks specs) m = Inr (s, ts) \<and>
           loop_inv (s, ts, i) \<and> hinv (sort_key arrival_time (make_tasks specs)) (s, ts, i) \<and>
           tinv (s, ts, i) \<and> time s = max 0 m \<and>
           ((\<forall>t\<in>set (make_tasks specs). 0 < burst_time t) \<and>
            distinct (map task_id (make_tasks specs)) \<and>
            ''IDLE'' \<notin> task_id ` set (make_tasks specs) \<longrightarrow> pinv (s, ts, i))"
proof -
  define ts0 where "ts0 = sort_key arrival_time (make_tasks specs)"
  define st0 where "st0 = (Scheduler_init, ts0, 0::nat)"
  have fr: "\<forall>t\<in>set ts0. fresh t" using fresh_make_tasks by (simp add: ts0_def)
  have set0: "set ts0 = set (make_tasks specs)" by (simp add: ts0_def)
  have "mset (map task_id ts0) = mset (map task_id (make_tasks specs))" by (simp add: ts0_def)
  then have d0: "distinct (map task_id ts0) = distinct (map task_id (make_tasks specs))"
    by (rule mset_eq_imp_distinct_iff)
  from run_loop_invs [OF pol loop_inv_init hinv_init tinv_init [OF fr], of m]
  obtain st' where r: "run_loop pol st0 m = Inr st'" "loop_inv st'" "hinv ts0 st'" "tinv st'"
    "time (fst st') = max (time (fst st0)) m"
    "distinct (map task_id ts0) \<and> ''IDLE'' \<notin> task_id ` set ts0 \<and> pinv st0 \<longrightarrow> pinv st'"
    unfolding st0_def by blast
  obtain s ts i where st': "st' = (s, ts, i)" by (cases st')
  have "run pol Scheduler_init (make_tasks specs) m = Inr (s, ts)"
    using r(1) by (simp add: run_def st0_def ts0_def st')
  moreover have "time s = max 0 m" using r(5) by (simp add: st' st0_def Scheduler_init_def)
  moreover have "pinv st'" if "\<forall>t\<in>set (make_tasks specs). 0 < burst_time t"
    "distinct (map task_id (make_tasks specs))" "''IDLE'' \<notin> task_id ` set (make_tasks specs)"
    using r(6) that d0 set0 pinv_init [OF fr] by (simp add: st0_def)
  ultimately show ?thesis using r(1-4) unfolding st' st0_def ts0_def by blast
qed

lemma lex_less_key: "lex_less e e' \<longleftrightarrow> key e < key e'"
  by (cases e; cases e') (auto simp: lex_less_def key_def)

lemma reach_inv:
  assumes "reach pol s cs"
  shows "queue_ok (ready_queue s) (task_counter s) \<and> 0 \<le> task_counter s \<and>
         cs = map int [0..<nat (task_counter s)] \<and> (\<forall>e\<in>set (ready_queue s). 0 \<le> cnt e)"
  using assms
proof (induction rule: reach.induct)
  case init
  show ?case by (simp add: Scheduler_init_def queue_ok_def heap_inv_def)
next
  case (add s cs r ts s' ts')
  from add.IH have ok: "queue_ok (ready_queue s) (task_counter s)" and tc: "0 \<le> task_counter s"
    and cs: "cs = map int [0..<nat (task_counter s)]"
    and nn: "\<forall>e\<in>set (ready_queue s). 0 \<le> cnt e" by blast+
  have pol: "pol \<noteq> Abstract" using add.hyps(3) by (auto simp: add_task_def Let_def)
  from add_task_char [OF pol ok, of ts r] add.hyps(3) obtain q' where
    s': "s' = s\<lparr>task_counter := task_counter s + 1, ready_queue := q'\<rparr>"
    and ts': "ts' = ts[r := (ts ! r)\<lparr>counter := task_counter s\<rparr>]"
    and m: "mset q' = add_mset (priority pol (ts ! r), arrival_time (ts ! r), task_counter s, r)
                 (mset (ready_queue s))"
    and q: "queue_ok q' (task_counter s + 1)"
    by auto
  have c: "counter (ts' ! r) = task_counter s" using ts' add.hyps(2) by simp
  have "nat (task_counter s + 1) = Suc (nat (task_counter s))" using tc by simp
  then have l: "map int [0..<nat (task_counter s + 1)] = cs @ [task_counter s]"
    using cs tc by simp
  have "\<forall>e\<in>set q'. 0 \<le> cnt e"
    using mset_add_set [OF m] nn tc by (auto simp: cnt_def)
  then show ?case using q s' tc c l by simp
next
  case (pop s cs cur s')
  from pop.IH have ok: "queue_ok (ready_queue s) (task_counter s)" and tc: "0 \<le> task_counter s"
    and cs: "cs = map int [0..<nat (task_counter s)]"
    and nn: "\<forall>e\<in>set (ready_queue s). 0 \<le> cnt e" by blast+
  have pol: "pol \<noteq> Abstract" using pop.hyps(2) by (auto simp: get_next_task_def)
  have "queue_ok (ready_queue s') (task_counter s') \<and> task_counter s' = task_counter s \<and>
      set (ready_queue s') \<subseteq> set (ready_queue s)"
  proof (cases "ready_queue s = []")
    case True
    then show ?thesis using get_next_task_char [OF pol ok] pop.hyps(2) ok by simp
  next
    case False
    with get_next_task_char [OF pol ok] obtain q' where
      g: "get_next_task pol s = Inr (Some (ref (ready_queue s ! 0)), s\<lparr>ready_queue := q'\<rparr>)"
      "mset (ready_queue s) = add_mset (ready_queue s ! 0) (mset q')" "queue_ok q' (task_counter s)"
      by auto
    then have "s' = s\<lparr>ready_queue := q'\<rparr>" using pop.hyps(2) by simp
    then show ?thesis using g(3) mset_add_set [OF g(2)] by auto
  qed
  then have a: "queue_ok (ready_queue s') (task_counter s')" and b: "task_counter s' = task_counter s"
    and c: "set (ready_queue s') \<subseteq> set (ready_queue s)"
    by blast+
  have "\<forall>e\<in>set (ready_queue s'). 0 \<le> cnt e" using c nn by blast
  then show ?case using a cs tc unfolding b by blast
next
  case (other s cs s')
  then show ?case by simp
qed

lemma run_total:
  assumes "pol \<noteq> Abstract"
  shows "\<exists>s ts. run pol Scheduler_init tasks max_time = Inr (s, ts) \<and>
           map static ts = map static (sort_key arrival_time tasks)"
proof -
  from run_hinv [OF assms, of tasks max_time] obtain s ts i where
    "run_loop pol (Scheduler_init, sort_key arrival_time tasks, 0) max_time = Inr (s, ts, i)"
    "hinv (sort_key arrival_time tasks) (s, ts, i)" by blast
  then show ?thesis by (simp add: run_def hinv_def)
qed

lemma queue_ok_entry_lt:
  assumes "queue_ok q n" and "a \<in> set q" and "b \<in> set q"
  shows "entry_lt a b = Inr (lex_less a b)"
proof (cases "a = b")
  case True
  obtain p x c r where "b = (p, x, c, r)" by (cases b)
  with True show ?thesis by (simp add: lex_less_def)
next
  case False
  have "inj_on key (set q)" using assms(1) by (simp add: queue_ok_def distinct_map)
  then have "key a \<noteq> key b" using False assms(2,3) by (auto dest: inj_onD)
  then show ?thesis using entry_lt_key lex_less_key by simp
qed

lemma step_ok_unit_effect:
  assumes so: "step_ok cur (s, ts, i) (s', ts', i')"
  shows "unit_effect (time s) (s, ts) (s', ts')"
proof -
  from so have tm: "time s' = time s + 1" and len: "length ts' = length ts"
    and h: "history s' = history s @
        [(time s, time s + 1, case cur of None \<Rightarrow> ''IDLE'' | Some r \<Rightarrow> task_id (ts ! r))]"
    by (simp_all add: step_ok_def)
  show ?thesis
  proof (cases cur)
    case None
    then have cs: "completed_tasks s' = completed_tasks s" using so by (simp add: step_ok_def)
    have oth: "Some j \<noteq> cur" for j :: nat using None by simp
    note f = step_ok_other [OF so _ oth]
    have "\<forall>j<length ts. remaining_time (ts' ! j) = remaining_time (ts ! j) \<and>
                        completion_time (ts' ! j) = completion_time (ts ! j)"
      using f(1,2) by simp
    then show ?thesis unfolding unit_effect_def using tm len h cs None by simp
  next
    case (Some r)
    from so Some have r: "r < length ts" "r \<notin> set (completed_tasks s)"
      and cs: "completed_tasks s' =
            (if remaining_time (ts ! r) - 1 = 0 then completed_tasks s @ [r] else completed_tasks s)"
      by (simp_all add: step_ok_def)
    have oth: "Some j \<noteq> cur" if "j \<noteq> r" for j using Some that by simp
    note f = step_ok_other [OF so _ oth]
    note g = step_ok_cur [OF so [unfolded Some]]
    have A: "\<forall>j<length ts. j \<noteq> r \<longrightarrow> remaining_time (ts' ! j) = remaining_time (ts ! j) \<and>
                                   completion_time (ts' ! j) = completion_time (ts ! j)"
      using f(1,2) by simp
    have B: "if remaining_time (ts' ! r) = 0
          then completed_tasks s' = completed_tasks s @ [r] \<and> completion_time (ts' ! r) = time s + 1
          else completed_tasks s' = completed_tasks s \<and>
               completion_time (ts' ! r) = completion_time (ts ! r)"
      using g(1,2) cs by simp
    have C: "history s' = history s @ [(time s, time s + 1, task_id (ts ! r))]"
      using h Some by simp
    have "\<exists>r<length ts. r \<notin> set (completed_tasks s) \<and>
         history s' = history s @ [(time s, time s + 1, task_id (ts ! r))] \<and>
         remaining_time (ts' ! r) = remaining_time (ts ! r) - 1 \<and>
         (\<forall>i<length ts. i \<noteq> r \<longrightarrow> remaining_time (ts' ! i) = remaining_time (ts ! i) \<and>
                                   completion_time (ts' ! i) = completion_time (ts ! i)) \<and>
         (if remaining_time (ts' ! r) = 0
          then completed_tasks s' = completed_tasks s @ [r] \<and> completion_time (ts' ! r) = time s + 1
          else completed_tasks s' = completed_tasks s \<and>
               completion_time (ts' ! r) = completion_time (ts ! r))"
      using r A B C g(1) by blast
    then show ?thesis unfolding unit_effect_def prod.case using tm len by blast
  qed
qed

lemma run_loop_one_more:
  assumes pol: "pol \<noteq> Abstract" and inv: "loop_inv st"
  shows "\<exists>cur st'. run_loop pol st (time (fst st) + 1) = Inr st' \<and> step_ok cur st st' \<and> loop_inv st'"
proof -
  from run_step_char [OF pol inv] obtain cur st1 where
    r: "run_step pol st = Inr st1" "step_ok cur st st1" "loop_inv st1" by blast
  have t: "time (fst st1) = time (fst st) + 1"
    using r(2) by (cases st; cases st1) (simp add: step_ok_def)
  have "run_loop pol st1 (time (fst st) + 1) = Inr st1"
    using t by (subst run_loop.simps) simp
  moreover have "run_loop pol st (time (fst st) + 1) = run_loop pol st1 (time (fst st) + 1)"
    using r(1) by (subst run_loop.simps) simp
  ultimately show ?thesis using r(2,3) by auto
qed

lemma run_unit:
  assumes pol: "pol \<noteq> Abstract" and k: "0 \<le> k"
  shows "\<exists>sk tsk s' ts'. run pol Scheduler_init tasks k = Inr (sk, tsk) \<and>
           run pol Scheduler_init tasks (k + 1) = Inr (s', ts') \<and>
           unit_effect k (sk, tsk) (s', ts')"
proof -
  define st0 where "st0 = (Scheduler_init, sort_key arrival_time tasks, 0::nat)"
  from run_hinv [OF pol, of tasks k] obtain sk tsk ik where
    rk: "run_loop pol st0 k = Inr (sk, tsk, ik)" and li: "loop_inv (sk, tsk, ik)"
    and tk: "time sk = max 0 k"
    unfolding st0_def by blast
  have tk': "time sk = k" using tk k by simp
  from run_loop_one_more [OF pol li] obtain cur st' where
    r1: "run_loop pol (sk, tsk, ik) (k + 1) = Inr st'" and so: "step_ok cur (sk, tsk, ik) st'"
    using tk' by auto
  obtain s' ts' i' where st': "st' = (s', ts', i')" by (cases st')
  have "k \<le> k + 1" by simp
  from run_loop_split [OF this, of pol st0] rk r1
  have "run_loop pol st0 (k + 1) = Inr (s', ts', i')" by (simp add: st')
  then have "run pol Scheduler_init tasks (k + 1) = Inr (s', ts')"
    by (simp add: run_def st0_def)
  moreover have "run pol Scheduler_init tasks k = Inr (sk, tsk)"
    using rk by (simp add: run_def st0_def)
  moreover have "unit_effect k (sk, tsk) (s', ts')"
    using step_ok_unit_effect [OF so [unfolded st']] tk' by simp
  ultimately show ?thesis by blast
qed

lemma run_idle_after_completion:
  assumes pol: "pol \<noteq> Abstract" and k: "0 \<le> k" "k \<le> m"
  shows "\<exists>sk tsk s ts. run pol Scheduler_init tasks k = Inr (sk, tsk) \<and>
           run pol Scheduler_init tasks m = Inr (s, ts) \<and>
           (set (completed_tasks sk) = {..<length tsk} \<longrightarrow>
              completed_tasks s = completed_tasks sk \<and>
              (\<forall>j. nat k \<le> j \<and> j < nat m \<longrightarrow> history s ! j = (int j, int j + 1, ''IDLE'')))"
proof -
  define ts0 where "ts0 = sort_key arrival_time tasks"
  define st0 where "st0 = (Scheduler_init, ts0, 0::nat)"
  from run_hinv [OF pol, of tasks k] obtain sk tsk ik where
    rk: "run_loop pol st0 k = Inr (sk, tsk, ik)" and li: "loop_inv (sk, tsk, ik)"
    and hk: "hinv ts0 (sk, tsk, ik)" and tk: "time sk = max 0 k"
    unfolding st0_def ts0_def by blast
  have tk': "time sk = k" using tk k by simp
  define Q where "Q = (\<lambda>x :: scheduler \<times> task list \<times> nat.
     set (completed_tasks sk) = {..<length tsk} \<longrightarrow>
       completed_tasks (fst x) = completed_tasks sk \<and> length (fst (snd x)) = length tsk \<and>
       (\<forall>j. nat k \<le> j \<and> j < length (history (fst x)) \<longrightarrow>
            history (fst x) ! j = (int j, int j + 1, ''IDLE'')))"
  define P where "P = (\<lambda>x. hinv ts0 x \<and> Q x)"
  have step: "P b" if "loop_inv a" "P a" "step_ok cur a b" "loop_inv b" for cur a b
  proof -
    from that(2) have ha: "hinv ts0 a" and qa: "Q a" by (simp_all add: P_def)
    have hb: "hinv ts0 b" using hinv_step [OF ha that(3)] .
    obtain s ts i where a: "a = (s, ts, i)" by (cases a)
    obtain s' ts' i' where b: "b = (s', ts', i')" by (cases b)
    note so = that(3) [unfolded a b]
    have "Q b" unfolding Q_def
    proof
      assume all: "set (completed_tasks sk) = {..<length tsk}"
      with qa a have c: "completed_tasks s = completed_tasks sk" and l: "length ts = length tsk"
        and idle: "\<And>j. nat k \<le> j \<Longrightarrow> j < length (history s) \<Longrightarrow>
            history s ! j = (int j, int j + 1, ''IDLE'')"
        by (simp_all add: Q_def)
      have none: "cur = None"
      proof (cases cur)
        case (Some r)
        then have "r < length ts" "r \<notin> set (completed_tasks s)" using so by (simp_all add: step_ok_def)
        then show ?thesis using c l all by auto
      qed simp
      from so none have h: "history s' = history s @ [(time s, time s + 1, ''IDLE'')]"
        and c': "completed_tasks s' = completed_tasks s" and l': "length ts' = length ts"
        by (simp_all add: step_ok_def)
      from ha a have t: "time s = int (length (history s))" by (simp add: hinv_def)
      have "history s' ! j = (int j, int j + 1, ''IDLE'')"
        if "nat k \<le> j" "j < length (history s')" for j
        using that idle [of j] h t by (auto simp: nth_append less_Suc_eq)
      then show "completed_tasks (fst b) = completed_tasks sk \<and> length (fst (snd b)) = length tsk \<and>
        (\<forall>j. nat k \<le> j \<and> j < length (history (fst b)) \<longrightarrow>
            history (fst b) ! j = (int j, int j + 1, ''IDLE''))"
        using c c' l l' b by simp
    qed
    with hb show ?thesis by (simp add: P_def)
  qed
  have lk: "length (history sk) = nat k" using hk tk' by (simp add: hinv_def)
  have "history sk ! j = (int j, int j + 1, ''IDLE'')"
    if "nat k \<le> j" "j < length (history sk)" for j
  proof -
    from that lk have False by linarith
    then show ?thesis ..
  qed
  then have "Q (sk, tsk, ik)" unfolding Q_def fst_conv snd_conv by blast
  then have P0: "P (sk, tsk, ik)" using hk by (simp add: P_def)
  have "\<exists>st'. run_loop pol (sk, tsk, ik) m = Inr st' \<and> loop_inv st' \<and> P st' \<and>
           time (fst st') = max (time (fst (sk, tsk, ik))) m"
    by (rule run_loop_rule [where P = P, OF pol step li P0])
  then obtain st' where r: "run_loop pol (sk, tsk, ik) m = Inr st'" and p: "P st'"
    and t: "time (fst st') = max k m" using tk' by auto
  obtain s ts i where st': "st' = (s, ts, i)" by (cases st')
  have "run_loop pol st0 m = Inr (s, ts, i)"
    using run_loop_split [OF k(2), of pol st0] rk r st' by simp
  then have A: "run pol Scheduler_init tasks m = Inr (s, ts)"
    by (simp add: run_def st0_def ts0_def)
  have B: "run pol Scheduler_init tasks k = Inr (sk, tsk)"
    using rk by (simp add: run_def st0_def ts0_def)
  have "length (history s) = nat m" using p t k st' by (simp add: P_def hinv_def max_def)
  then have C: "set (completed_tasks sk) = {..<length tsk} \<longrightarrow>
              completed_tasks s = completed_tasks sk \<and>
              (\<forall>j. nat k \<le> j \<and> j < nat m \<longrightarrow> history s ! j = (int j, int j + 1, ''IDLE''))"
    using p st' by (simp add: P_def Q_def)
  from A B C show ?thesis by blast
qed

section \<open>The runs over any priority queue\<close>

lemma add_task_refines:
  assumes "pol \<noteq> Abstract" and "queue_ok (ready_queue s) (task_counter s)"
    and "add_task pol s ts r = Inr res"
  shows "add_task_any pol s ts r res"
proof -
  from add_task_char [OF assms(1,2), of ts r] assms(3) obtain q' where
    "res = (s\<lparr>task_counter := task_counter s + 1, ready_queue := q'\<rparr>,
            ts[r := (ts ! r)\<lparr>counter := task_counter s\<rparr>])"
    "mset q' = add_mset (priority pol (ts ! r), arrival_time (ts ! r), task_counter s, r)
                 (mset (ready_queue s))"
    by auto
  then show ?thesis using assms(1) by (auto simp: add_task_any_def Let_def)
qed

lemma get_next_task_refines:
  assumes "pol \<noteq> Abstract" and ok: "queue_ok (ready_queue s) (task_counter s)"
    and "get_next_task pol s = Inr res"
  shows "get_next_task_any pol s res"
proof (cases "ready_queue s = []")
  case True
  then show ?thesis using assms get_next_task_char [OF assms(1,2)]
    by (simp add: get_next_task_any_def)
next
  case False
  define e where "e = ready_queue s ! 0"
  from get_next_task_char [OF assms(1,2)] False assms(3) obtain q' where
    g: "res = (Some (ref e), s\<lparr>ready_queue := q'\<rparr>)"
      "mset (ready_queue s) = add_mset e (mset q')"
      "\<forall>x\<in>set (ready_queue s). key e \<le> key x"
    unfolding e_def by auto
  have mem: "e \<in> set (ready_queue s)" using False by (simp add: e_def)
  have "entry_lt x e = Inr False" if "x \<in> set (ready_queue s)" for x
  proof -
    have "entry_lt x e = Inr (lex_less x e)" using queue_ok_entry_lt [OF ok that mem] .
    moreover have "\<not> lex_less x e" using g(3) that by (auto simp: lex_less_key)
    ultimately show ?thesis by simp
  qed
  then have "\<exists>e' q. mset (ready_queue s) = add_mset e' (mset q) \<and>
                  (\<forall>x\<in>set (ready_queue s). entry_lt x e' = Inr False) \<and>
                  res = (Some (ref e'), s\<lparr>ready_queue := q\<rparr>)"
    using g(1,2) by blast
  then show ?thesis unfolding get_next_task_any_def using False assms(1) by simp
qed

lemma admit_arrivals_refines:
  assumes pol: "pol \<noteq> Abstract"
    and "sinv None (ready_queue s) (task_counter s) (completed_tasks s) (length ts) i"
    and "admit_arrivals pol s ts i = Inr res"
  shows "admit_arrivals_any pol s ts i res"
  using assms(2,3)
proof (induction "length ts - i" arbitrary: s ts i rule: less_induct)
  case less
  show ?case
  proof (cases "i < length ts \<and> arrival_time (ts ! i) \<le> time s")
    case False
    then have "admit_arrivals pol s ts i = Inr (s, ts, i)"
      unfolding admit_arrivals.simps [of pol s ts i] by auto
    with less.prems(2) have "res = (s, ts, i)" by simp
    then show ?thesis using admit_arrivals_any.stop [OF False] by simp
  next
    case True
    have ok: "queue_ok (ready_queue s) (task_counter s)" using less.prems(1) by (simp add: sinv_def)
    define ts1 where "ts1 = ts[i := (ts ! i)\<lparr>counter := task_counter s\<rparr>]"
    from add_task_char [OF pol ok, of ts i] obtain q' where
      a: "add_task pol s ts i = Inr (s\<lparr>task_counter := task_counter s + 1, ready_queue := q'\<rparr>, ts1)"
      and m: "mset q' = add_mset (priority pol (ts ! i), arrival_time (ts ! i), task_counter s, i)
                 (mset (ready_queue s))"
      and q: "queue_ok q' (task_counter s + 1)"
      unfolding ts1_def by blast
    define s1 where "s1 = s\<lparr>task_counter := task_counter s + 1, ready_queue := q'\<rparr>"
    have unf: "admit_arrivals pol s ts i = admit_arrivals pol s1 ts1 (i + 1)"
      unfolding admit_arrivals.simps [of pol s ts i] using True a by (simp add: s1_def)
    have inv1: "sinv None (ready_queue s1) (task_counter s1) (completed_tasks s1) (length ts1) (i + 1)"
      using sinv_admit [OF less.prems(1) _ m _ q] True by (simp add: s1_def ts1_def ref_def)
    have "length ts1 - (i + 1) < length ts - i" using True by (auto simp: ts1_def)
    from less.hyps [OF this inv1] unf less.prems(2)
    have r: "admit_arrivals_any pol s1 ts1 (i + 1) res" by simp
    have "add_task_any pol s ts i (s1, ts1)"
      using add_task_refines [OF pol ok a] by (simp add: s1_def)
    from admit_arrivals_any.admit [OF True this r] show ?thesis .
  qed
qed

lemma execute_refines:
  assumes pol: "pol \<noteq> Abstract" and ok: "queue_ok (ready_queue s) (task_counter s)"
    and ex: "execute pol s ts r = Inr res"
  shows "execute_any pol s ts r res"
proof -
  define t1 where "t1 = (if start_time (ts ! r) = - 1 then (ts ! r)\<lparr>start_time := time s\<rparr> else ts ! r)"
  define t2 where "t2 = t1\<lparr>remaining_time := remaining_time t1 - 1\<rparr>"
  define s1 where "s1 = s\<lparr>history := history s @ [(time s, time s + 1, task_id t1)]\<rparr>"
  show ?thesis
  proof (cases "remaining_time t2 = 0")
    case True
    then show ?thesis using ex
      unfolding execute_def execute_any_def Let_def t1_def [symmetric] t2_def [symmetric] s1_def [symmetric]
      by (auto split: if_splits)
  next
    case False
    then have e: "add_task pol s1 (ts[r := t2]) r = Inr res" using ex pol
      unfolding execute_def Let_def push_back_def t1_def [symmetric] t2_def [symmetric] s1_def [symmetric]
      by simp
    have ok1: "queue_ok (ready_queue s1) (task_counter s1)" using ok by (simp add: s1_def)
    have "add_task_any pol s1 (ts[r := t2]) r res" using add_task_refines [OF pol ok1 e] .
    then show ?thesis using False
      unfolding execute_any_def Let_def t1_def [symmetric] t2_def [symmetric] s1_def [symmetric]
      by simp
  qed
qed

lemma run_step_refines:
  assumes pol: "pol \<noteq> Abstract" and inv: "loop_inv st" and rs: "run_step pol st = Inr st'"
  shows "run_step_any pol st st'"
proof -
  obtain s ts i where st: "st = (s, ts, i)" by (cases st)
  from inv st have inv0: "sinv None (ready_queue s) (task_counter s) (completed_tasks s) (length ts) i"
    by (simp add: loop_inv_def)
  from admit_arrivals_char [OF pol inv0] obtain s1 ts1 i1 where
    a: "admit_arrivals pol s ts i = Inr (s1, ts1, i1)"
    and inv1: "sinv None (ready_queue s1) (task_counter s1) (completed_tasks s1) (length ts1) i1"
    by blast
  have A: "admit_arrivals_any pol s ts i (s1, ts1, i1)"
    using admit_arrivals_refines [OF pol inv0 a] .
  have ok1: "queue_ok (ready_queue s1) (task_counter s1)" using inv1 by (simp add: sinv_def)
  from rs a st obtain cur s2 where g: "get_next_task pol s1 = Inr (cur, s2)"
    by (auto simp: run_step_def split: sum.splits)
  have G: "get_next_task_any pol s1 (cur, s2)" using get_next_task_refines [OF pol ok1 g] .
  show ?thesis
  proof (cases cur)
    case None
    then have "st' = (s2\<lparr>history := history s2 @ [(time s2, time s2 + 1, ''IDLE'')],
                           time := time s2 + 1\<rparr>, ts1, i1)"
      using rs a g st by (simp add: run_step_def)
    then have T: "case cur of
               Some r \<Rightarrow>
                 (\<exists>s3 ts3. execute_any pol s2 ts1 r (s3, ts3) \<and>
                            st' = (s3\<lparr>time := time s3 + 1\<rparr>, ts3, i1))
             | None \<Rightarrow>
                 st' = (s2\<lparr>history := history s2 @ [(time s2, time s2 + 1, ''IDLE'')],
                           time := time s2 + 1\<rparr>, ts1, i1)"
      using None by simp
    from A G T show ?thesis unfolding run_step_any_def st prod.case by blast
  next
    case (Some r)
    then obtain s3 ts3 where e: "execute pol s2 ts1 r = Inr (s3, ts3)"
      and s': "st' = (s3\<lparr>time := time s3 + 1\<rparr>, ts3, i1)"
      using rs a g st by (auto simp: run_step_def split: sum.splits)
    have ok2: "queue_ok (ready_queue s2) (task_counter s2)"
    proof (cases "ready_queue s1 = []")
      case True
      then show ?thesis using get_next_task_char [OF pol ok1] g Some by simp
    next
      case False
      then show ?thesis using get_next_task_char [OF pol ok1] g by auto
    qed
    have E: "execute_any pol s2 ts1 r (s3, ts3)" using execute_refines [OF pol ok2 e] .
    have T: "case cur of
               Some r \<Rightarrow>
                 (\<exists>s3 ts3. execute_any pol s2 ts1 r (s3, ts3) \<and>
                            st' = (s3\<lparr>time := time s3 + 1\<rparr>, ts3, i1))
             | None \<Rightarrow>
                 st' = (s2\<lparr>history := history s2 @ [(time s2, time s2 + 1, ''IDLE'')],
                           time := time s2 + 1\<rparr>, ts1, i1)"
      using Some E s' by auto
    from A G T show ?thesis unfolding run_step_any_def st prod.case by blast
  qed
qed

lemma run_loop_refines:
  assumes pol: "pol \<noteq> Abstract" and "loop_inv st" and "run_loop pol st m = Inr st'"
  shows "run_loop_any pol st m st'"
  using assms(2,3)
proof (induction "nat (m - time (fst st))" arbitrary: st rule: less_induct)
  case less
  show ?case
  proof (cases "time (fst st) < m")
    case False
    then have "run_loop pol st m = Inr st" by (subst run_loop.simps) simp
    with less.prems(2) have "st' = st" by simp
    then show ?thesis using run_loop_any.done_loop [OF False] by simp
  next
    case True
    from run_step_char [OF pol less.prems(1)] obtain cur st1 where
      r: "run_step pol st = Inr st1" "step_ok cur st st1" "loop_inv st1" by blast
    have t: "time (fst st1) = time (fst st) + 1"
      using r(2) by (cases st; cases st1) (simp add: step_ok_def)
    have "run_loop pol st m = run_loop pol st1 m"
      using True r(1) by (subst run_loop.simps) simp
    then have r1: "run_loop pol st1 m = Inr st'" using less.prems(2) by simp
    have "nat (m - time (fst st1)) < nat (m - time (fst st))" using t True by simp
    from less.hyps [OF this r(3) r1] have "run_loop_any pol st1 m st'" .
    from run_loop_any.iterate [OF True run_step_refines [OF pol less.prems(1) r(1)] this]
    show ?thesis .
  qed
qed

lemma run_refines:
  assumes "pol \<noteq> Abstract" and "run pol Scheduler_init tasks m = Inr res"
  shows "run_any pol Scheduler_init tasks m res"
proof -
  from assms(2) obtain s ts i where
    r: "run_loop pol (Scheduler_init, sort_key arrival_time tasks, 0) m = Inr (s, ts, i)"
    and res: "res = (s, ts)"
    by (auto simp: run_def split: sum.splits)
  from run_loop_refines [OF assms(1) loop_inv_init r] show ?thesis
    unfolding run_any_def res by auto
qed

lemma keys_ok_sim:
  assumes "sim s s'" and "keys_ok s"
  shows "keys_ok s'"
proof -
  from assms(1) have m: "mset (ready_queue s') = mset (ready_queue s)"
    and t: "task_counter s' = task_counter s" by (simp_all add: sim_def)
  have "distinct (map key (ready_queue s'))"
    using distinct_keys_mset [OF m] assms(2) by (simp add: keys_ok_def)
  moreover have "set (ready_queue s') = set (ready_queue s)" using m by (rule mset_eq_setD)
  ultimately show ?thesis using assms(2) t by (simp add: keys_ok_def)
qed

lemma add_task_any_char:
  "add_task_any pol s ts r (s', ts') \<longleftrightarrow>
     pol \<noteq> Abstract \<and> ts' = ts[r := (ts ! r)\<lparr>counter := task_counter s\<rparr>] \<and>
     time s' = time s \<and> history s' = history s \<and> completed_tasks s' = completed_tasks s \<and>
     missed_deadlines s' = missed_deadlines s \<and> task_counter s' = task_counter s + 1 \<and>
     mset (ready_queue s') =
       add_mset (priority pol (ts ! r), arrival_time (ts ! r), task_counter s, r) (mset (ready_queue s))"
proof
  assume "add_task_any pol s ts r (s', ts')"
  then show "pol \<noteq> Abstract \<and> ts' = ts[r := (ts ! r)\<lparr>counter := task_counter s\<rparr>] \<and>
     time s' = time s \<and> history s' = history s \<and> completed_tasks s' = completed_tasks s \<and>
     missed_deadlines s' = missed_deadlines s \<and> task_counter s' = task_counter s + 1 \<and>
     mset (ready_queue s') =
       add_mset (priority pol (ts ! r), arrival_time (ts ! r), task_counter s, r) (mset (ready_queue s))"
    by (auto simp: add_task_any_def Let_def)
next
  assume a: "pol \<noteq> Abstract \<and> ts' = ts[r := (ts ! r)\<lparr>counter := task_counter s\<rparr>] \<and>
     time s' = time s \<and> history s' = history s \<and> completed_tasks s' = completed_tasks s \<and>
     missed_deadlines s' = missed_deadlines s \<and> task_counter s' = task_counter s + 1 \<and>
     mset (ready_queue s') =
       add_mset (priority pol (ts ! r), arrival_time (ts ! r), task_counter s, r) (mset (ready_queue s))"
  then have "s' = s\<lparr>task_counter := task_counter s + 1, ready_queue := ready_queue s'\<rparr>"
    by (cases s; cases s') simp
  then have "(s', ts') = (s\<lparr>task_counter := task_counter s + 1\<rparr>\<lparr>ready_queue := ready_queue s'\<rparr>,
      ts[r := (ts ! r)\<lparr>counter := task_counter s\<rparr>])"
    using a by simp
  then show "add_task_any pol s ts r (s', ts')"
    unfolding add_task_any_def Let_def using a by (intro conjI exI [of _ "ready_queue s'"]) simp_all
qed

lemma add_task_any_det:
  assumes "sim s1 s2" and "add_task_any pol s1 ts r (a1, b1)" and "add_task_any pol s2 ts r (a2, b2)"
  shows "sim a1 a2 \<and> b2 = b1"
  using assms unfolding add_task_any_char sim_def by simp

lemma add_task_any_keys:
  assumes "keys_ok s" and "add_task_any pol s ts r (s', ts')"
  shows "keys_ok s'"
proof -
  define e where "e = (priority pol (ts ! r), arrival_time (ts ! r), task_counter s, r)"
  from assms(2) have m: "mset (ready_queue s') = add_mset e (mset (ready_queue s))"
    and t: "task_counter s' = task_counter s + 1"
    unfolding add_task_any_char e_def by simp_all
  have c: "cnt e = task_counter s" by (simp add: e_def cnt_def)
  have "key e \<notin> key ` set (ready_queue s)"
  proof
    assume "key e \<in> key ` set (ready_queue s)"
    then obtain x where "x \<in> set (ready_queue s)" "key x = key e" by auto
    then show False using assms(1) c key_cnt [of x e] by (auto simp: keys_ok_def)
  qed
  then have d: "distinct (map key (e # ready_queue s))" using assms(1) by (simp add: keys_ok_def)
  have "mset (ready_queue s') = mset (e # ready_queue s)" using m by simp
  from distinct_keys_mset [OF this d] have "distinct (map key (ready_queue s'))" .
  moreover have "set (ready_queue s') = insert e (set (ready_queue s))" using m by (rule mset_add_set)
  ultimately show ?thesis using assms(1) t c by (auto simp: keys_ok_def)
qed

lemma least_unique:
  assumes k: "distinct (map key q)" and "e1 \<in> set q" and "e2 \<in> set q"
    and "entry_lt e1 e2 = Inr False" and "entry_lt e2 e1 = Inr False"
  shows "e1 = e2"
proof (rule ccontr)
  assume ne: "e1 \<noteq> e2"
  have "inj_on key (set q)" using k by (simp add: distinct_map)
  then have kn: "key e1 \<noteq> key e2" using ne assms(2,3) by (auto dest: inj_onD)
  then have "entry_lt e1 e2 = Inr (key e1 < key e2)" "entry_lt e2 e1 = Inr (key e2 < key e1)"
    using entry_lt_key by simp_all
  with assms(4,5) have "\<not> key e1 < key e2" "\<not> key e2 < key e1" by simp_all
  then have "key e1 = key e2" by simp
  with kn show False by simp
qed

lemma get_next_task_any_det:
  assumes s: "sim s1 s2" and k: "keys_ok s1"
    and g1: "get_next_task_any pol s1 (c1, a1)" and g2: "get_next_task_any pol s2 (c2, a2)"
  shows "c2 = c1 \<and> sim a1 a2"
proof -
  from s have m: "mset (ready_queue s2) = mset (ready_queue s1)" by (simp add: sim_def)
  then have se: "set (ready_queue s2) = set (ready_queue s1)" by (rule mset_eq_setD)
  have em: "ready_queue s2 = [] \<longleftrightarrow> ready_queue s1 = []" using m by (metis mset_zero_iff)
  show ?thesis
  proof (cases "ready_queue s1 = []")
    case True
    then show ?thesis using g1 g2 em s by (simp add: get_next_task_any_def)
  next
    case False
    with g1 obtain e1 q1 where
      x1: "mset (ready_queue s1) = add_mset e1 (mset q1)"
      "\<forall>x\<in>set (ready_queue s1). entry_lt x e1 = Inr False"
      "c1 = Some (ref e1)" "a1 = s1\<lparr>ready_queue := q1\<rparr>"
      by (auto simp: get_next_task_any_def)
    from False em g2 obtain e2 q2 where
      x2: "mset (ready_queue s2) = add_mset e2 (mset q2)"
      "\<forall>x\<in>set (ready_queue s2). entry_lt x e2 = Inr False"
      "c2 = Some (ref e2)" "a2 = s2\<lparr>ready_queue := q2\<rparr>"
      by (auto simp: get_next_task_any_def)
    have i1: "e1 \<in> set (ready_queue s1)" using mset_add_set [OF x1(1)] by simp
    have i2: "e2 \<in> set (ready_queue s1)" using mset_add_set [OF x2(1)] se by simp
    have "e1 = e2"
      using least_unique [of "ready_queue s1" e1 e2] k i1 i2 x1(2) x2(2) se
      by (simp add: keys_ok_def)
    moreover from this have "mset q2 = mset q1" using x1(1) x2(1) m by simp
    ultimately show ?thesis using x1(3,4) x2(3,4) s by (simp add: sim_def)
  qed
qed

lemma get_next_task_any_keys:
  assumes "keys_ok s" and "get_next_task_any pol s (c, a)"
  shows "keys_ok a"
proof (cases "ready_queue s = []")
  case True
  then show ?thesis using assms by (simp add: get_next_task_any_def)
next
  case False
  with assms(2) obtain e q where
    x: "mset (ready_queue s) = add_mset e (mset q)" "a = s\<lparr>ready_queue := q\<rparr>"
    by (auto simp: get_next_task_any_def)
  have "mset (e # q) = mset (ready_queue s)" using x(1) by simp
  from distinct_keys_mset [OF this] assms(1) have "distinct (map key q)" by (simp add: keys_ok_def)
  moreover have "set (ready_queue s) = insert e (set q)" using x(1) by (rule mset_add_set)
  ultimately show ?thesis using assms(1) x(2) by (auto simp: keys_ok_def)
qed

lemma admit_arrivals_any_det:
  assumes "admit_arrivals_any pol s1 ts i res1" and "sim s1 s2"
    and "admit_arrivals_any pol s2 ts i res2"
  shows "sim (fst res1) (fst res2) \<and> snd res2 = snd res1"
  using assms
proof (induction arbitrary: s2 res2 rule: admit_arrivals_any.induct)
  case (stop task_idx ts s)
  have t: "time s2 = time s" using stop.prems(1) by (simp add: sim_def)
  from stop.prems(2) show ?case
  proof (cases rule: admit_arrivals_any.cases)
    case stop
    then show ?thesis using \<open>sim s s2\<close> by simp
  next
    case (admit s' ts')
    then show ?thesis using stop.hyps t by simp
  qed
next
  case (admit task_idx ts s s' ts' res)
  have t: "time s2 = time s" using admit.prems(1) by (simp add: sim_def)
  from admit.prems(2) show ?case
  proof (cases rule: admit_arrivals_any.cases)
    case stop
    then show ?thesis using admit.hyps(1) t by simp
  next
    case (admit s2' ts2')
    from add_task_any_det [OF \<open>sim s s2\<close> admit.hyps(2) admit(2)]
    have "sim s' s2'" "ts2' = ts'" by simp_all
    with admit.IH [of s2' res2] admit(3) show ?thesis by simp
  qed
qed

lemma admit_arrivals_any_keys:
  assumes "admit_arrivals_any pol s ts i res" and "keys_ok s"
  shows "keys_ok (fst res)"
  using assms
proof (induction rule: admit_arrivals_any.induct)
  case (stop task_idx ts s)
  then show ?case by simp
next
  case (admit task_idx ts s s' ts' res)
  then show ?case using add_task_any_keys by blast
qed

lemma sim_history:
  "sim s1 s2 \<Longrightarrow> sim (s1\<lparr>history := history s1 @ [(time s1, time s1 + 1, n)]\<rparr>)
      (s2\<lparr>history := history s2 @ [(time s2, time s2 + 1, n)]\<rparr>)"
  by (simp add: sim_def)

lemma keys_ok_history: "keys_ok (s\<lparr>history := h\<rparr>) = keys_ok s"
  by (simp add: keys_ok_def)

lemma keys_ok_time: "keys_ok (s\<lparr>time := h\<rparr>) = keys_ok s"
  by (simp add: keys_ok_def)

lemma execute_any_det:
  assumes s: "sim s1 s2" and e1: "execute_any pol s1 ts r (a1, b1)"
    and e2: "execute_any pol s2 ts r (a2, b2)"
  shows "sim a1 a2 \<and> b2 = b1"
proof -
  define t1 where "t1 = (if start_time (ts ! r) = - 1 then (ts ! r)\<lparr>start_time := time s1\<rparr> else ts ! r)"
  define t2 where "t2 = t1\<lparr>remaining_time := remaining_time t1 - 1\<rparr>"
  define n where "n = task_id t1"
  have t: "time s2 = time s1" using s by (simp add: sim_def)
  note h = sim_history [OF s, of n]
  show ?thesis
  proof (cases "remaining_time t2 = 0")
    case True
    with e1 e2 s show ?thesis
      unfolding execute_any_def Let_def t [symmetric] t1_def [symmetric, unfolded t [symmetric]] t2_def [symmetric]
      by (auto simp: sim_def split: if_splits)
  next
    case False
    from e1 False have "add_task_any pol (s1\<lparr>history := history s1 @ [(time s1, time s1 + 1, n)]\<rparr>)
        (ts[r := t2]) r (a1, b1)"
      unfolding execute_any_def Let_def t1_def [symmetric] t2_def [symmetric] n_def by simp
    moreover from e2 False have "add_task_any pol (s2\<lparr>history := history s2 @ [(time s2, time s2 + 1, n)]\<rparr>)
        (ts[r := t2]) r (a2, b2)"
      unfolding execute_any_def Let_def t t1_def [symmetric] t2_def [symmetric] n_def by simp
    ultimately show ?thesis using add_task_any_det [OF h] by blast
  qed
qed

lemma execute_any_keys:
  assumes k: "keys_ok s" and e: "execute_any pol s ts r (a, b)"
  shows "keys_ok a"
proof -
  define t1 where "t1 = (if start_time (ts ! r) = - 1 then (ts ! r)\<lparr>start_time := time s\<rparr> else ts ! r)"
  define t2 where "t2 = t1\<lparr>remaining_time := remaining_time t1 - 1\<rparr>"
  show ?thesis
  proof (cases "remaining_time t2 = 0")
    case True
    with e k show ?thesis
      unfolding execute_any_def Let_def t1_def [symmetric] t2_def [symmetric]
      by (auto simp: keys_ok_def split: if_splits)
  next
    case False
    from e False have "add_task_any pol (s\<lparr>history := history s @ [(time s, time s + 1, task_id t1)]\<rparr>)
        (ts[r := t2]) r (a, b)"
      unfolding execute_any_def Let_def t1_def [symmetric] t2_def [symmetric] by simp
    from add_task_any_keys [OF _ this] k show ?thesis by (simp add: keys_ok_history)
  qed
qed

lemma run_step_any_det:
  assumes s: "sim s1 s2" and k: "keys_ok s1"
    and r1: "run_step_any pol (s1, ts, i) (a1, b1, j1)"
    and r2: "run_step_any pol (s2, ts, i) (a2, b2, j2)"
  shows "sim a1 a2 \<and> b2 = b1 \<and> j2 = j1 \<and> keys_ok a1"
proof -
  from r1 obtain u1 tu1 iu1 c1 v1 where
    A1: "admit_arrivals_any pol s1 ts i (u1, tu1, iu1)"
    and G1: "get_next_task_any pol u1 (c1, v1)"
    and E1: "case c1 of
               Some r \<Rightarrow> (\<exists>s3 ts3. execute_any pol v1 tu1 r (s3, ts3) \<and>
                            (a1, b1, j1) = (s3\<lparr>time := time s3 + 1\<rparr>, ts3, iu1))
             | None \<Rightarrow> (a1, b1, j1) = (v1\<lparr>history := history v1 @ [(time v1, time v1 + 1, ''IDLE'')],
                           time := time v1 + 1\<rparr>, tu1, iu1)"
    unfolding run_step_any_def prod.case by blast
  from r2 obtain u2 tu2 iu2 c2 v2 where
    A2: "admit_arrivals_any pol s2 ts i (u2, tu2, iu2)"
    and G2: "get_next_task_any pol u2 (c2, v2)"
    and E2: "case c2 of
               Some r \<Rightarrow> (\<exists>s3 ts3. execute_any pol v2 tu2 r (s3, ts3) \<and>
                            (a2, b2, j2) = (s3\<lparr>time := time s3 + 1\<rparr>, ts3, iu2))
             | None \<Rightarrow> (a2, b2, j2) = (v2\<lparr>history := history v2 @ [(time v2, time v2 + 1, ''IDLE'')],
                           time := time v2 + 1\<rparr>, tu2, iu2)"
    unfolding run_step_any_def prod.case by blast
  from admit_arrivals_any_det [OF A1 s A2]
  have su: "sim u1 u2" and tu: "tu2 = tu1" and iu: "iu2 = iu1" by simp_all
  from admit_arrivals_any_keys [OF A1 k] have ku: "keys_ok u1" by simp
  from get_next_task_any_det [OF su ku G1 G2] have c: "c2 = c1" and sv: "sim v1 v2" by simp_all
  from get_next_task_any_keys [OF ku G1] have kv: "keys_ok v1" .
  show ?thesis
  proof (cases c1)
    case None
    with E1 E2 c tu iu sv kv show ?thesis
      by (simp add: sim_def keys_ok_def)
  next
    case (Some r)
    with E1 obtain w1 tw1 where
      x1: "execute_any pol v1 tu1 r (w1, tw1)" "a1 = w1\<lparr>time := time w1 + 1\<rparr>" "b1 = tw1" "j1 = iu1"
      by auto
    from Some c E2 obtain w2 tw2 where
      x2: "execute_any pol v2 tu2 r (w2, tw2)" "a2 = w2\<lparr>time := time w2 + 1\<rparr>" "b2 = tw2" "j2 = iu2"
      by auto
    from execute_any_det [OF sv x1(1) x2(1) [unfolded tu]]
    have "sim w1 w2" "tw2 = tw1" by simp_all
    moreover from execute_any_keys [OF kv x1(1)] have "keys_ok w1" .
    ultimately show ?thesis using x1 x2 iu by (simp add: sim_def keys_ok_def)
  qed
qed

lemma run_loop_any_det:
  assumes "run_loop_any pol st1 max_time res1" and "sim (fst st1) (fst st2)" and "snd st2 = snd st1"
    and "keys_ok (fst st1)" and "run_loop_any pol st2 max_time res2"
  shows "sim (fst res1) (fst res2) \<and> snd res2 = snd res1"
  using assms
proof (induction arbitrary: st2 rule: run_loop_any.induct)
  case (done_loop st max_time)
  have t: "time (fst st2) = time (fst st)" using done_loop.prems(1) by (simp add: sim_def)
  from done_loop.prems(4) show ?case
  proof (cases rule: run_loop_any.cases)
    case done_loop
    then show ?thesis using \<open>sim (fst st) (fst st2)\<close> \<open>snd st2 = snd st\<close> by simp
  next
    case (iterate st1)
    then show ?thesis using done_loop.hyps t by simp
  qed
next
  case (iterate st max_time st1 st')
  have t: "time (fst st2) = time (fst st)" using iterate.prems(1) by (simp add: sim_def)
  from iterate.prems(4) show ?case
  proof (cases rule: run_loop_any.cases)
    case done_loop
    then show ?thesis using iterate.hyps(1) t by simp
  next
    case (iterate st21)
    obtain s ts i where st: "st = (s, ts, i)" by (cases st)
    obtain s2 where st2: "st2 = (s2, ts, i)"
      using \<open>snd st2 = snd st\<close> st by (cases st2) simp
    obtain a1 b1 j1 where st1: "st1 = (a1, b1, j1)" by (cases st1)
    obtain a2 b2 j2 where st21: "st21 = (a2, b2, j2)" by (cases st21)
    have "sim s s2" "keys_ok s" using iterate.prems(1,3) st st2 by simp_all
    from run_step_any_det [OF this iterate.hyps(2) [unfolded st st1] iterate(2) [unfolded st2 st21]]
    have "sim (fst st1) (fst st21)" "snd st21 = snd st1" "keys_ok (fst st1)"
      by (simp_all add: st1 st21)
    from iterate.IH [OF this iterate(3)] show ?thesis .
  qed
qed

lemma keys_ok_init: "keys_ok Scheduler_init"
  by (simp add: keys_ok_def Scheduler_init_def)

lemma sim_refl: "sim s s"
  by (simp add: sim_def)

lemma run_any_det:
  assumes "run_any pol Scheduler_init tasks max_time r1"
    and "run_any pol Scheduler_init tasks max_time r2"
  shows "sim (fst r1) (fst r2) \<and> snd r2 = snd r1"
proof -
  from assms obtain i1 i2 where
    l1: "run_loop_any pol (Scheduler_init, sort_key arrival_time tasks, 0) max_time (fst r1, snd r1, i1)"
    and l2: "run_loop_any pol (Scheduler_init, sort_key arrival_time tasks, 0) max_time (fst r2, snd r2, i2)"
    unfolding run_any_def by blast
  from run_loop_any_det [OF l1 _ _ _ l2] show ?thesis
    by (simp add: keys_ok_init sim_refl)
qed

lemma get_next_task_any_arrange:
  assumes "get_next_task_any pol u (Some r, v)" and "mset q = mset (ready_queue v)"
  shows "get_next_task_any pol u (Some r, v\<lparr>ready_queue := q\<rparr>)"
proof -
  from assms(1) have ne: "ready_queue u \<noteq> []" and p: "pol \<noteq> Abstract"
    by (auto simp: get_next_task_any_def split: if_splits)
  with assms(1) obtain e q0 where
    x: "mset (ready_queue u) = add_mset e (mset q0)"
    "\<forall>x\<in>set (ready_queue u). entry_lt x e = Inr False"
    "r = ref e" "v = u\<lparr>ready_queue := q0\<rparr>"
    by (auto simp: get_next_task_any_def)
  have "mset (ready_queue u) = add_mset e (mset q)" using x(1,4) assms(2) by simp
  moreover have "(Some r, v\<lparr>ready_queue := q\<rparr>) = (Some (ref e), u\<lparr>ready_queue := q\<rparr>)"
    using x(3,4) by simp
  ultimately have "\<exists>e' q'. mset (ready_queue u) = add_mset e' (mset q') \<and>
      (\<forall>x\<in>set (ready_queue u). entry_lt x e' = Inr False) \<and>
      (Some r, v\<lparr>ready_queue := q\<rparr>) = (Some (ref e'), u\<lparr>ready_queue := q'\<rparr>)"
    using x(2) by blast
  then show ?thesis
    unfolding get_next_task_any_def using ne p by simp
qed

lemma execute_any_arrange:
  assumes e: "execute_any pol v ts r (w, tw)" and m: "mset q = mset (ready_queue w)"
  shows "\<exists>q0. mset q0 = mset (ready_queue v) \<and>
            execute_any pol (v\<lparr>ready_queue := q0\<rparr>) ts r (w\<lparr>ready_queue := q\<rparr>, tw)"
proof -
  define t1 where "t1 = (if start_time (ts ! r) = - 1 then (ts ! r)\<lparr>start_time := time v\<rparr> else ts ! r)"
  define t2 where "t2 = t1\<lparr>remaining_time := remaining_time t1 - 1\<rparr>"
  show ?thesis
  proof (cases "remaining_time t2 = 0")
    case True
    from e True have rq: "ready_queue w = ready_queue v"
      unfolding execute_any_def Let_def t1_def [symmetric] t2_def [symmetric]
      by (auto split: if_splits)
    define v' where "v' = v\<lparr>ready_queue := q\<rparr>"
    have t1': "t1 = (if start_time (ts ! r) = - 1 then (ts ! r)\<lparr>start_time := time v'\<rparr> else ts ! r)"
      by (simp add: t1_def v'_def)
    from e True have "execute_any pol v' ts r (w\<lparr>ready_queue := q\<rparr>, tw)"
      unfolding execute_any_def Let_def t1_def [symmetric] t1' [symmetric] t2_def [symmetric]
      by (auto simp: v'_def split: if_splits)
    with m rq show ?thesis unfolding v'_def by auto
  next
    case False
    let ?v1 = "v\<lparr>history := history v @ [(time v, time v + 1, task_id t1)]\<rparr>"
    from e False have a: "add_task_any pol ?v1 (ts[r := t2]) r (w, tw)"
      unfolding execute_any_def Let_def t1_def [symmetric] t2_def [symmetric] by simp
    then have "add_task_any pol ?v1 (ts[r := t2]) r (w\<lparr>ready_queue := q\<rparr>, tw)"
      unfolding add_task_any_char using m by simp
    with False have "execute_any pol v ts r (w\<lparr>ready_queue := q\<rparr>, tw)"
      unfolding execute_any_def Let_def t1_def [symmetric] t2_def [symmetric] by simp
    moreover have "v\<lparr>ready_queue := ready_queue v\<rparr> = v" by simp
    ultimately show ?thesis by (intro exI [of _ "ready_queue v"]) simp
  qed
qed

lemma run_step_any_arrange:
  assumes r: "run_step_any pol (s, ts, i) (a, b, j)" and m: "mset q = mset (ready_queue a)"
  shows "run_step_any pol (s, ts, i) (a\<lparr>ready_queue := q\<rparr>, b, j)"
proof -
  from r obtain u tu iu c v where
    A: "admit_arrivals_any pol s ts i (u, tu, iu)"
    and G: "get_next_task_any pol u (c, v)"
    and E: "case c of
               Some r \<Rightarrow> (\<exists>s3 ts3. execute_any pol v tu r (s3, ts3) \<and>
                            (a, b, j) = (s3\<lparr>time := time s3 + 1\<rparr>, ts3, iu))
             | None \<Rightarrow> (a, b, j) = (v\<lparr>history := history v @ [(time v, time v + 1, ''IDLE'')],
                           time := time v + 1\<rparr>, tu, iu)"
    unfolding run_step_any_def prod.case by blast
  show ?thesis
  proof (cases c)
    case None
    with G have "ready_queue u = []" "v = u"
      by (auto simp: get_next_task_any_def split: if_splits)
    with None E have "ready_queue a = []" by simp
    with m have "a\<lparr>ready_queue := q\<rparr> = a" by simp
    with r show ?thesis by simp
  next
    case (Some x)
    with E obtain w tw where
      x: "execute_any pol v tu x (w, tw)" "a = w\<lparr>time := time w + 1\<rparr>" "b = tw" "j = iu"
      by auto
    have "mset q = mset (ready_queue w)" using m x(2) by simp
    from execute_any_arrange [OF x(1) this] obtain q0 where
      q0: "mset q0 = mset (ready_queue v)"
      "execute_any pol (v\<lparr>ready_queue := q0\<rparr>) tu x (w\<lparr>ready_queue := q\<rparr>, tw)" by blast
    from get_next_task_any_arrange [OF G [unfolded Some] q0(1)]
    have G': "get_next_task_any pol u (Some x, v\<lparr>ready_queue := q0\<rparr>)" .
    have eq: "(a\<lparr>ready_queue := q\<rparr>, b, j) =
        ((w\<lparr>ready_queue := q\<rparr>)\<lparr>time := time (w\<lparr>ready_queue := q\<rparr>) + 1\<rparr>, tw, iu)"
      using x(2,3,4) by simp
    have T: "case Some x of
               Some r \<Rightarrow> (\<exists>s3 ts3. execute_any pol (v\<lparr>ready_queue := q0\<rparr>) tu r (s3, ts3) \<and>
                            (a\<lparr>ready_queue := q\<rparr>, b, j) = (s3\<lparr>time := time s3 + 1\<rparr>, ts3, iu))
             | None \<Rightarrow> (a\<lparr>ready_queue := q\<rparr>, b, j) =
                  ((v\<lparr>ready_queue := q0\<rparr>)\<lparr>history := history (v\<lparr>ready_queue := q0\<rparr>) @
                       [(time (v\<lparr>ready_queue := q0\<rparr>), time (v\<lparr>ready_queue := q0\<rparr>) + 1, ''IDLE'')],
                           time := time (v\<lparr>ready_queue := q0\<rparr>) + 1\<rparr>, tu, iu)"
      unfolding option.case using q0(2) eq by blast
    from A G' T show ?thesis unfolding run_step_any_def prod.case by blast
  qed
qed

lemma run_loop_any_arrange:
  assumes "run_loop_any pol st max_time res" and "time (fst st) < max_time"
    and "mset q = mset (ready_queue (fst res))"
  shows "run_loop_any pol st max_time ((fst res)\<lparr>ready_queue := q\<rparr>, snd res)"
  using assms
proof (induction rule: run_loop_any.induct)
  case (done_loop st max_time)
  then show ?case by simp
next
  case (iterate st max_time st1 st')
  show ?case
  proof (cases "time (fst st1) < max_time")
    case True
    from iterate.IH [OF True iterate.prems(2)]
    show ?thesis using iterate.hyps(1,2) by (rule run_loop_any.iterate [rotated 2])
  next
    case False
    from iterate.hyps(3) False have eq: "st' = st1"
      by (cases rule: run_loop_any.cases) simp_all
    obtain s ts i where st: "st = (s, ts, i)" by (cases st)
    obtain a b j where st1: "st1 = (a, b, j)" by (cases st1)
    have "mset q = mset (ready_queue a)" using iterate.prems(2) eq st1 by simp
    from run_step_any_arrange [OF iterate.hyps(2) [unfolded st st1] this]
    have step: "run_step_any pol st (a\<lparr>ready_queue := q\<rparr>, b, j)" by (simp add: st)
    have "\<not> time (fst (a\<lparr>ready_queue := q\<rparr>, b, j)) < max_time" using False st1 by simp
    then have "run_loop_any pol (a\<lparr>ready_queue := q\<rparr>, b, j) max_time (a\<lparr>ready_queue := q\<rparr>, b, j)"
      by (rule run_loop_any.done_loop)
    with iterate.hyps(1) step
    have "run_loop_any pol st max_time (a\<lparr>ready_queue := q\<rparr>, b, j)"
      by (rule run_loop_any.iterate)
    then show ?thesis by (simp add: eq st1)
  qed
qed

lemma run_any_arrange:
  assumes "run_any pol s tasks max_time (a, b)" and "time s < max_time"
    and "mset q = mset (ready_queue a)"
  shows "run_any pol s tasks max_time (a\<lparr>ready_queue := q\<rparr>, b)"
proof -
  from assms(1) obtain i where
    "run_loop_any pol (s, sort_key arrival_time tasks, 0) max_time (a, b, i)"
    unfolding run_any_def by auto
  from run_loop_any_arrange [OF this, of q] assms(2,3) show ?thesis
    unfolding run_any_def by auto
qed

section \<open>The claims\<close>

text \<open>
  Claim C5.  For every task list and every \<open>max_time\<close>, a run of the EDF or RMS scheduler from
  a new scheduler object returns a history with exactly one entry per time unit
  \<open>0 .. max_time - 1\<close>: the \<open>i\<close>-th entry is \<open>(i, i + 1, x)\<close>, where \<open>x\<close> is the identifier of one
  of the tasks or \<open>"IDLE"\<close>.  (For \<open>max_time \<le> 0\<close> the history is empty.)
\<close>

theorem history_covers_every_unit:
  assumes "pol \<noteq> Abstract"
  shows "\<exists>s ts. run pol Scheduler_init tasks max_time = Inr (s, ts) \<and>
           length (history s) = nat max_time \<and>
           (\<forall>i<nat max_time. \<exists>x. history s ! i = (int i, int i + 1, x) \<and>
                (x = ''IDLE'' \<or> x \<in> task_id ` set tasks))"
proof -
  from run_hinv [OF assms, of tasks max_time] obtain s ts i where
    r: "run_loop pol (Scheduler_init, sort_key arrival_time tasks, 0) max_time = Inr (s, ts, i)"
    and h: "hinv (sort_key arrival_time tasks) (s, ts, i)" and t: "time s = max 0 max_time"
    by blast
  have "run pol Scheduler_init tasks max_time = Inr (s, ts)" using r by (simp add: run_def)
  moreover have "length (history s) = nat max_time" using h t by (simp add: hinv_def max_def)
  moreover have "hist_ok (task_id ` set tasks) (history s)" using h by (simp add: hinv_def)
  ultimately show ?thesis unfolding hist_ok_def by auto
qed

theorem history_covers_every_unit_witness:
  "EDF \<noteq> Abstract \<and>
   (\<exists>s ts. run EDF Scheduler_init [Task_init ''T1'' 0 3 10 0, Task_init ''T2'' 1 2 4 0] 10 = Inr (s, ts) \<and>
      length (history s) = 10 \<and> (\<exists>x. history s ! 7 = (7, 8, x)))"
proof -
  have p: "EDF \<noteq> Abstract" by simp
  from history_covers_every_unit [OF p, of "[Task_init ''T1'' 0 3 10 0, Task_init ''T2'' 1 2 4 0]" 10]
  obtain s ts where r: "run EDF Scheduler_init [Task_init ''T1'' 0 3 10 0, Task_init ''T2'' 1 2 4 0] 10 = Inr (s, ts)"
    "length (history s) = nat 10"
    "\<forall>i<nat 10. \<exists>x. history s ! i = (int i, int i + 1, x) \<and>
        (x = ''IDLE'' \<or> x \<in> task_id ` set [Task_init ''T1'' 0 3 10 0, Task_init ''T2'' 1 2 4 0])"
    by blast
  have "(7::nat) < nat 10" by simp
  with r(3) obtain x where "history s ! 7 = (int 7, int 7 + 1, x)" by blast
  then have "\<exists>x. history s ! 7 = (7, 8, x)" by simp
  with r(1,2) p show ?thesis by simp
qed

text \<open>
  Claim C4.  EDF on the task set \<open>T1\<close> (arrival 0, burst 3, relative deadline 10) and \<open>T2\<close>
  (arrival 1, burst 2, relative deadline 4), as \<open>test_edf_preemption\<close> builds it: for
  every \<open>max_time \<ge> 5\<close> the run returns, and the first five history entries are
  \<open>(0,1,T1), (1,2,T2), (2,3,T2), (3,4,T1), (4,5,T1)\<close>.  \<open>T2\<close> (absolute deadline 5)
  preempts \<open>T1\<close> (absolute deadline 10) at unit 1.
\<close>

theorem edf_preemption_scenario:
  assumes "5 \<le> max_time"
  shows "\<exists>s ts. run EDF Scheduler_init [Task_init ''T1'' 0 3 10 0, Task_init ''T2'' 1 2 4 0] max_time
                  = Inr (s, ts) \<and>
           take 5 (history s) =
             [(0, 1, ''T1''), (1, 2, ''T2''), (2, 3, ''T2''), (3, 4, ''T1''), (4, 5, ''T1'')] \<and>
           absolute_deadline (Task_init ''T2'' 1 2 4 0) = 5 \<and>
           absolute_deadline (Task_init ''T1'' 0 3 10 0) = 10"
proof -
  define tasks where "tasks = [Task_init ''T1'' 0 3 10 0, Task_init ''T2'' 1 2 4 0]"
  define st0 where "st0 = (Scheduler_init, sort_key arrival_time tasks, 0::nat)"
  have pol: "EDF \<noteq> Abstract" by simp
  have ev: "map_sum id (\<lambda>st. history (fst st)) (run_loop EDF st0 5) =
      Inr [(0, 1, ''T1''), (1, 2, ''T2''), (2, 3, ''T2''), (3, 4, ''T1''), (4, 5, ''T1'')]"
    unfolding st0_def tasks_def by code_simp
  from run_hinv [OF pol, of tasks 5] obtain s5 ts5 i5 where
    r5: "run_loop EDF st0 5 = Inr (s5, ts5, i5)" and inv5: "loop_inv (s5, ts5, i5)"
    unfolding st0_def by blast
  have h5: "history s5 = [(0, 1, ''T1''), (1, 2, ''T2''), (2, 3, ''T2''), (3, 4, ''T1''), (4, 5, ''T1'')]"
    using ev r5 by simp
  have "5 \<le> length (history (fst (s5, ts5, i5)))" using h5 by simp
  from run_loop_history_prefix [OF pol inv5 this, of max_time] obtain st' where
    r: "run_loop EDF (s5, ts5, i5) max_time = Inr st'"
      "take 5 (history (fst st')) = take 5 (history s5)"
    by auto
  have "run_loop EDF st0 max_time = Inr st'"
    using run_loop_split [OF assms, of EDF st0] r5 r(1) by simp
  then have "run EDF Scheduler_init tasks max_time = Inr (fst st', fst (snd st'))"
    by (simp add: run_def st0_def split: prod.splits)
  moreover have "take 5 (history (fst st')) =
      [(0, 1, ''T1''), (1, 2, ''T2''), (2, 3, ''T2''), (3, 4, ''T1''), (4, 5, ''T1'')]"
    using r(2) h5 by simp
  ultimately show ?thesis by (simp add: tasks_def Task_init_def)
qed

theorem edf_preemption_scenario_witness:
  "(5::int) \<le> 10 \<and>
   (\<exists>s ts. run EDF Scheduler_init [Task_init ''T1'' 0 3 10 0, Task_init ''T2'' 1 2 4 0] 10 = Inr (s, ts) \<and>
      take 5 (history s) =
        [(0, 1, ''T1''), (1, 2, ''T2''), (2, 3, ''T2''), (3, 4, ''T1''), (4, 5, ''T1'')])"
proof -
  have h: "(5::int) \<le> 10" by simp
  from edf_preemption_scenario [OF h] show ?thesis by auto
qed

text \<open>
  Claim C1, as the code has it.  \<open>Scheduler.run\<close> sets \<open>missed_deadline\<close> in one place only,
  when a task completes: after a run of the EDF or RMS scheduler on newly constructed
  tasks, a task is flagged if and only if it is in the list of completed tasks and its
  completion time is strictly greater than its absolute deadline, and \<open>missed_deadlines\<close>
  counts each flagged task once.  A task that has not completed when the run ends is
  not flagged, whatever the time.
\<close>

theorem missed_deadline_iff_completed_late:
  assumes "pol \<noteq> Abstract"
  shows "\<exists>s ts. run pol Scheduler_init (make_tasks specs) max_time = Inr (s, ts) \<and>
           (\<forall>i<length ts. missed_deadline (ts ! i) \<longleftrightarrow>
               i \<in> set (completed_tasks s) \<and> absolute_deadline (ts ! i) < completion_time (ts ! i)) \<and>
           missed_deadlines s = int (card {i. i < length ts \<and> missed_deadline (ts ! i)})"
proof -
  from run_make_tasks_invs [OF assms, of specs max_time] obtain s ts i where
    r: "run pol Scheduler_init (make_tasks specs) max_time = Inr (s, ts)"
    and li: "loop_inv (s, ts, i)" and ti: "tinv (s, ts, i)"
    by blast
  note t = ti [unfolded tinv_def prod.case]
  have A: "missed_deadline (ts ! j) \<longleftrightarrow>
      j \<in> set (completed_tasks s) \<and> absolute_deadline (ts ! j) < completion_time (ts ! j)"
    if "j < length ts" for j
    using t that by blast
  have d: "distinct (completed_tasks s)" using li by (simp add: loop_inv_def sinv_def)
  define fl where "fl = filter (\<lambda>r. missed_deadline (ts ! r)) (completed_tasks s)"
  have "{j. j < length ts \<and> missed_deadline (ts ! j)} = set fl"
    using t by (auto simp: fl_def)
  moreover have "distinct fl" using d by (simp add: fl_def)
  ultimately have "card {j. j < length ts \<and> missed_deadline (ts ! j)} = length fl"
    using distinct_card [of fl] by simp
  then have "card {j. j < length ts \<and> missed_deadline (ts ! j)} =
      length (filter (\<lambda>r. missed_deadline (ts ! r)) (completed_tasks s))"
    by (simp add: fl_def)
  then have "missed_deadlines s = int (card {j. j < length ts \<and> missed_deadline (ts ! j)})"
    using t by simp
  with r A show ?thesis by blast
qed

theorem missed_deadline_iff_completed_late_witness:
  "RMS \<noteq> Abstract \<and>
   (\<exists>s ts. run RMS Scheduler_init (make_tasks [(''A'', 0, 3, 2, 0), (''B'', 0, 1, 1, 0)]) 2 = Inr (s, ts) \<and>
      (missed_deadline (ts ! 1) \<longleftrightarrow>
          1 \<in> set (completed_tasks s) \<and> absolute_deadline (ts ! 1) < completion_time (ts ! 1)))"
proof -
  have p: "RMS \<noteq> Abstract" by simp
  from missed_deadline_iff_completed_late [OF p, of "[(''A'', 0, 3, 2, 0), (''B'', 0, 1, 1, 0)]" 2]
  obtain s ts where r: "run RMS Scheduler_init (make_tasks [(''A'', 0, 3, 2, 0), (''B'', 0, 1, 1, 0)]) 2 = Inr (s, ts)"
    "\<forall>i<length ts. missed_deadline (ts ! i) \<longleftrightarrow>
               i \<in> set (completed_tasks s) \<and> absolute_deadline (ts ! i) < completion_time (ts ! i)"
    by blast
  have "map_sum id (\<lambda>x. length (snd x)) (run RMS Scheduler_init (make_tasks [(''A'', 0, 3, 2, 0), (''B'', 0, 1, 1, 0)]) 2) = Inr 2"
    by code_simp
  then have "length ts = 2" using r(1) by simp
  then have "1 < length ts" by simp
  with r(2) have "missed_deadline (ts ! 1) \<longleftrightarrow>
          1 \<in> set (completed_tasks s) \<and> absolute_deadline (ts ! 1) < completion_time (ts ! 1)"
    by blast
  with r(1) p show ?thesis by blast
qed

text \<open>
  The claim as it is stated fails.  One task with burst 5 and absolute deadline 2 under
  EDF: the run with \<open>max_time = 4\<close> passes through the state that the run with
  \<open>max_time = 3\<close> returns, where the time is 3, past the deadline, and two units of work
  remain; the task is not flagged when the run ends.  And with \<open>A\<close> (burst 10, deadline
  1) and \<open>B\<close> (burst 1, deadline 2), \<open>B\<close> is never selected in five units, the time passes
  its deadline, and it is not flagged.
\<close>

theorem missed_deadline_counterexample:
  "\<not> isl (run EDF Scheduler_init (make_tasks [(''T'', 0, 5, 2, 0)]) 3) \<and>
   time (fst (projr (run EDF Scheduler_init (make_tasks [(''T'', 0, 5, 2, 0)]) 3))) = 3 \<and>
   absolute_deadline (snd (projr (run EDF Scheduler_init (make_tasks [(''T'', 0, 5, 2, 0)]) 3)) ! 0) = 2 \<and>
   remaining_time (snd (projr (run EDF Scheduler_init (make_tasks [(''T'', 0, 5, 2, 0)]) 3)) ! 0) = 2 \<and>
   \<not> isl (run EDF Scheduler_init (make_tasks [(''T'', 0, 5, 2, 0)]) 4) \<and>
   \<not> missed_deadline (snd (projr (run EDF Scheduler_init (make_tasks [(''T'', 0, 5, 2, 0)]) 4)) ! 0) \<and>
   missed_deadlines (fst (projr (run EDF Scheduler_init (make_tasks [(''T'', 0, 5, 2, 0)]) 4))) = 0 \<and>
   \<not> isl (run EDF Scheduler_init (make_tasks [(''A'', 0, 10, 1, 0), (''B'', 0, 1, 2, 0)]) 5) \<and>
   history (fst (projr (run EDF Scheduler_init (make_tasks [(''A'', 0, 10, 1, 0), (''B'', 0, 1, 2, 0)]) 5)))
     = [(0, 1, ''A''), (1, 2, ''A''), (2, 3, ''A''), (3, 4, ''A''), (4, 5, ''A'')] \<and>
   task_id (snd (projr (run EDF Scheduler_init (make_tasks [(''A'', 0, 10, 1, 0), (''B'', 0, 1, 2, 0)]) 5)) ! 1) = ''B'' \<and>
   absolute_deadline (snd (projr (run EDF Scheduler_init (make_tasks [(''A'', 0, 10, 1, 0), (''B'', 0, 1, 2, 0)]) 5)) ! 1) = 2 \<and>
   remaining_time (snd (projr (run EDF Scheduler_init (make_tasks [(''A'', 0, 10, 1, 0), (''B'', 0, 1, 2, 0)]) 5)) ! 1) = 1 \<and>
   \<not> missed_deadline (snd (projr (run EDF Scheduler_init (make_tasks [(''A'', 0, 10, 1, 0), (''B'', 0, 1, 2, 0)]) 5)) ! 1)"
  by code_simp

text \<open>
  Claim C3, as the code has it.  The only condition of the loop is \<open>self.time < max_time\<close>:
  for every task set and \<open>max_time\<close>, the run of the EDF or RMS scheduler from a new
  scheduler object ends with \<open>time = max_time\<close> (with 0 if \<open>max_time\<close> is negative), whether
  or not the tasks have completed, and the history has one entry for each of the
  \<open>max_time\<close> units; once every task has completed, all further entries are idle
  entries.  Nothing is done to the tasks when the loop ends.  A run with
  \<open>max_time \<le> 0\<close> leaves the scheduler and the sorted tasks as they were constructed,
  and the run passes, for every unit \<open>k < max_time\<close>, from the final state of the run with
  bound \<open>k\<close> to that of the run with bound \<open>k + 1\<close> by \<open>unit_effect\<close>: a task enters
  \<open>completed_tasks\<close> only in the unit in which it executes its last unit of work.  So
  the tasks that still have work left when \<open>time\<close> reaches \<open>max_time\<close> are not
  force-completed: they are not in \<open>completed_tasks\<close>, their completion time is still
  \<open>-1\<close>, and their remaining time is as their last executed unit left it.
\<close>

theorem run_stops_at_max_time_only:
  assumes "pol \<noteq> Abstract"
  shows "\<exists>s ts. run pol Scheduler_init (make_tasks specs) max_time = Inr (s, ts) \<and>
           time s = max 0 max_time \<and> length (history s) = nat max_time \<and>
           (\<forall>i<length ts. remaining_time (ts ! i) \<noteq> 0 \<longrightarrow>
               i \<notin> set (completed_tasks s) \<and> completion_time (ts ! i) = - 1) \<and>
           (\<forall>i<length ts.
               (i \<in> set (completed_tasks s) \<longleftrightarrow> completion_time (ts ! i) \<noteq> - 1) \<and>
               (i \<in> set (completed_tasks s) \<longrightarrow>
                  remaining_time (ts ! i) = 0 \<and> 1 \<le> completion_time (ts ! i) \<and>
                  completion_time (ts ! i) \<le> max_time)) \<and>
           (max_time \<le> 0 \<longrightarrow>
               s = Scheduler_init \<and> ts = sort_key arrival_time (make_tasks specs)) \<and>
           (\<forall>k. 0 \<le> k \<and> k < max_time \<longrightarrow>
               (\<exists>sk tsk s' ts'.
                   run pol Scheduler_init (make_tasks specs) k = Inr (sk, tsk) \<and>
                   run pol Scheduler_init (make_tasks specs) (k + 1) = Inr (s', ts') \<and>
                   unit_effect k (sk, tsk) (s', ts'))) \<and>
           (\<forall>k. 0 \<le> k \<and> k \<le> max_time \<longrightarrow>
               (\<exists>sk tsk.
                   run pol Scheduler_init (make_tasks specs) k = Inr (sk, tsk) \<and>
                   (set (completed_tasks sk) = {..<length tsk} \<longrightarrow>
                      completed_tasks s = completed_tasks sk \<and>
                      (\<forall>j. nat k \<le> j \<and> j < nat max_time \<longrightarrow>
                           history s ! j = (int j, int j + 1, ''IDLE'')))))"
proof -
  from run_make_tasks_invs [OF assms, of specs max_time] obtain s ts i where
    rl: "run_loop pol (Scheduler_init, sort_key arrival_time (make_tasks specs), 0) max_time
              = Inr (s, ts, i)"
    and r: "run pol Scheduler_init (make_tasks specs) max_time = Inr (s, ts)"
    and hi: "hinv (sort_key arrival_time (make_tasks specs)) (s, ts, i)"
    and ti: "tinv (s, ts, i)" and tm: "time s = max 0 max_time"
    by blast
  note t = ti [unfolded tinv_def prod.case]
  have A: "length (history s) = nat max_time" using hi tm by (simp add: hinv_def max_def)
  have B: "i \<notin> set (completed_tasks s) \<and> completion_time (ts ! i) = - 1"
    if "i < length ts" "remaining_time (ts ! i) \<noteq> 0" for i
    using t that by blast
  have C: "(i \<in> set (completed_tasks s) \<longleftrightarrow> completion_time (ts ! i) \<noteq> - 1) \<and>
      (i \<in> set (completed_tasks s) \<longrightarrow>
         remaining_time (ts ! i) = 0 \<and> 1 \<le> completion_time (ts ! i) \<and>
         completion_time (ts ! i) \<le> max_time)"
    if i: "i < length ts" for i
  proof (cases "i \<in> set (completed_tasks s)")
    case True
    with t have c: "remaining_time (ts ! i) = 0" "1 \<le> completion_time (ts ! i)"
      "completion_time (ts ! i) \<le> time s" by blast+
    then have "completion_time (ts ! i) \<le> max_time" using tm by (simp add: max_def split: if_splits)
    with c True show ?thesis by simp
  next
    case False
    with t i have "completion_time (ts ! i) = - 1" by blast
    with False show ?thesis by simp
  qed
  have D: "s = Scheduler_init \<and> ts = sort_key arrival_time (make_tasks specs)" if "max_time \<le> 0"
  proof -
    have "run_loop pol (Scheduler_init, sort_key arrival_time (make_tasks specs), 0) max_time
        = Inr (Scheduler_init, sort_key arrival_time (make_tasks specs), 0)"
      using that by (subst run_loop.simps) (simp add: Scheduler_init_def)
    with rl show ?thesis by simp
  qed
  have E: "\<exists>sk tsk s' ts'.
       run pol Scheduler_init (make_tasks specs) k = Inr (sk, tsk) \<and>
       run pol Scheduler_init (make_tasks specs) (k + 1) = Inr (s', ts') \<and>
       unit_effect k (sk, tsk) (s', ts')" if "0 \<le> k" for k
    using run_unit [OF assms that] .
  have F: "\<exists>sk tsk.
       run pol Scheduler_init (make_tasks specs) k = Inr (sk, tsk) \<and>
       (set (completed_tasks sk) = {..<length tsk} \<longrightarrow>
          completed_tasks s = completed_tasks sk \<and>
          (\<forall>j. nat k \<le> j \<and> j < nat max_time \<longrightarrow>
               history s ! j = (int j, int j + 1, ''IDLE'')))" if k: "0 \<le> k" "k \<le> max_time" for k
  proof -
    from run_idle_after_completion [OF assms k, of "make_tasks specs"] obtain sk tsk s2 ts2 where
      x: "run pol Scheduler_init (make_tasks specs) k = Inr (sk, tsk)"
      "run pol Scheduler_init (make_tasks specs) max_time = Inr (s2, ts2)"
      "set (completed_tasks sk) = {..<length tsk} \<longrightarrow>
              completed_tasks s2 = completed_tasks sk \<and>
              (\<forall>j. nat k \<le> j \<and> j < nat max_time \<longrightarrow> history s2 ! j = (int j, int j + 1, ''IDLE''))"
      by blast
    from x(2) r have "s2 = s" by simp
    with x(1,3) show ?thesis by blast
  qed
  show ?thesis
  proof (intro exI conjI)
    show "run pol Scheduler_init (make_tasks specs) max_time = Inr (s, ts)" by (rule r)
    show "time s = max 0 max_time" by (rule tm)
    show "length (history s) = nat max_time" by (rule A)
    show "\<forall>i<length ts. remaining_time (ts ! i) \<noteq> 0 \<longrightarrow>
               i \<notin> set (completed_tasks s) \<and> completion_time (ts ! i) = - 1"
      using B by blast
    show "\<forall>i<length ts.
               (i \<in> set (completed_tasks s) \<longleftrightarrow> completion_time (ts ! i) \<noteq> - 1) \<and>
               (i \<in> set (completed_tasks s) \<longrightarrow>
                  remaining_time (ts ! i) = 0 \<and> 1 \<le> completion_time (ts ! i) \<and>
                  completion_time (ts ! i) \<le> max_time)"
      using C by blast
    show "max_time \<le> 0 \<longrightarrow>
               s = Scheduler_init \<and> ts = sort_key arrival_time (make_tasks specs)"
      using D by blast
    show "\<forall>k. 0 \<le> k \<and> k < max_time \<longrightarrow>
               (\<exists>sk tsk s' ts'.
                   run pol Scheduler_init (make_tasks specs) k = Inr (sk, tsk) \<and>
                   run pol Scheduler_init (make_tasks specs) (k + 1) = Inr (s', ts') \<and>
                   unit_effect k (sk, tsk) (s', ts'))"
      using E by blast
    show "\<forall>k. 0 \<le> k \<and> k \<le> max_time \<longrightarrow>
               (\<exists>sk tsk.
                   run pol Scheduler_init (make_tasks specs) k = Inr (sk, tsk) \<and>
                   (set (completed_tasks sk) = {..<length tsk} \<longrightarrow>
                      completed_tasks s = completed_tasks sk \<and>
                      (\<forall>j. nat k \<le> j \<and> j < nat max_time \<longrightarrow>
                           history s ! j = (int j, int j + 1, ''IDLE''))))"
      using F by blast
  qed
qed


theorem run_stops_at_max_time_only_witness:
  "EDF \<noteq> Abstract \<and>
   (\<exists>s ts. run EDF Scheduler_init (make_tasks [(''T'', 0, 5, 2, 0)]) 4 = Inr (s, ts) \<and>
      time s = 4 \<and> length (history s) = 4 \<and> remaining_time (ts ! 0) = 1 \<and>
      0 \<notin> set (completed_tasks s) \<and> completion_time (ts ! 0) = - 1) \<and>
   (\<exists>sk tsk s' ts'.
      run EDF Scheduler_init (make_tasks [(''T'', 0, 5, 2, 0)]) 3 = Inr (sk, tsk) \<and>
      run EDF Scheduler_init (make_tasks [(''T'', 0, 5, 2, 0)]) 4 = Inr (s', ts') \<and>
      unit_effect 3 (sk, tsk) (s', ts')) \<and>
   (\<exists>s ts. run EDF Scheduler_init (make_tasks [(''T'', 0, 1, 5, 0)]) 3 = Inr (s, ts) \<and>
      completed_tasks s = [0] \<and>
      history s ! 1 = (1, 2, ''IDLE'') \<and> history s ! 2 = (2, 3, ''IDLE''))"
proof -
  have p: "EDF \<noteq> Abstract" by simp
  let ?A = "make_tasks [(''T'', 0, 5, 2, 0)]"
  let ?B = "make_tasks [(''T'', 0, 1, 5, 0)]"
  from run_stops_at_max_time_only [OF p, of "[(''T'', 0, 5, 2, 0)]" 4]
  obtain s ts where r: "run EDF Scheduler_init ?A 4 = Inr (s, ts)"
    "time s = max 0 4" "length (history s) = nat 4"
    "\<forall>i<length ts. remaining_time (ts ! i) \<noteq> 0 \<longrightarrow>
               i \<notin> set (completed_tasks s) \<and> completion_time (ts ! i) = - 1"
    and u: "\<forall>k. 0 \<le> k \<and> k < 4 \<longrightarrow>
               (\<exists>sk tsk s' ts'.
                   run EDF Scheduler_init ?A k = Inr (sk, tsk) \<and>
                   run EDF Scheduler_init ?A (k + 1) = Inr (s', ts') \<and>
                   unit_effect k (sk, tsk) (s', ts'))"
    by blast
  have "length (snd (projr (run EDF Scheduler_init ?A 4))) = 1 \<and>
      remaining_time (snd (projr (run EDF Scheduler_init ?A 4)) ! 0) = 1"
    by code_simp
  then have l: "0 < length ts" and rem: "remaining_time (ts ! 0) = 1" using r(1) by simp_all
  from r(4) l rem have nc: "0 \<notin> set (completed_tasks s) \<and> completion_time (ts ! 0) = - 1"
    by simp
  have W1: "\<exists>s ts. run EDF Scheduler_init ?A 4 = Inr (s, ts) \<and>
      time s = 4 \<and> length (history s) = 4 \<and> remaining_time (ts ! 0) = 1 \<and>
      0 \<notin> set (completed_tasks s) \<and> completion_time (ts ! 0) = - 1"
    using r(1,2,3) rem nc by simp
  have "(0::int) \<le> 3 \<and> (3::int) < 4" by simp
  with u have "\<exists>sk tsk s' ts'.
                   run EDF Scheduler_init ?A 3 = Inr (sk, tsk) \<and>
                   run EDF Scheduler_init ?A (3 + 1) = Inr (s', ts') \<and>
                   unit_effect 3 (sk, tsk) (s', ts')"
    by blast
  then have W2: "\<exists>sk tsk s' ts'.
      run EDF Scheduler_init ?A 3 = Inr (sk, tsk) \<and>
      run EDF Scheduler_init ?A 4 = Inr (s', ts') \<and>
      unit_effect 3 (sk, tsk) (s', ts')"
    by simp
  from run_stops_at_max_time_only [OF p, of "[(''T'', 0, 1, 5, 0)]" 3]
  obtain s2 ts2 where r2: "run EDF Scheduler_init ?B 3 = Inr (s2, ts2)"
    and idle: "\<forall>k. 0 \<le> k \<and> k \<le> 3 \<longrightarrow>
               (\<exists>sk tsk.
                   run EDF Scheduler_init ?B k = Inr (sk, tsk) \<and>
                   (set (completed_tasks sk) = {..<length tsk} \<longrightarrow>
                      completed_tasks s2 = completed_tasks sk \<and>
                      (\<forall>j. nat k \<le> j \<and> j < nat 3 \<longrightarrow>
                           history s2 ! j = (int j, int j + 1, ''IDLE''))))"
    by blast
  have "(0::int) \<le> 1 \<and> (1::int) \<le> 3" by simp
  with idle obtain sk tsk where k1: "run EDF Scheduler_init ?B 1 = Inr (sk, tsk)"
    and i1: "set (completed_tasks sk) = {..<length tsk} \<longrightarrow>
                      completed_tasks s2 = completed_tasks sk \<and>
                      (\<forall>j. nat 1 \<le> j \<and> j < nat 3 \<longrightarrow>
                           history s2 ! j = (int j, int j + 1, ''IDLE''))"
    by blast
  have "completed_tasks (fst (projr (run EDF Scheduler_init ?B 1))) = [0] \<and>
      length (snd (projr (run EDF Scheduler_init ?B 1))) = 1"
    by code_simp
  then have ck: "completed_tasks sk = [0]" and lk: "length tsk = 1" using k1 by simp_all
  have "set (completed_tasks sk) = {..<length tsk}" unfolding ck lk by auto
  with i1 have c2: "completed_tasks s2 = completed_tasks sk"
    and h: "\<forall>j. nat 1 \<le> j \<and> j < nat 3 \<longrightarrow> history s2 ! j = (int j, int j + 1, ''IDLE'')"
    by blast+
  have "nat 1 \<le> (1::nat) \<and> (1::nat) < nat 3" "nat 1 \<le> (2::nat) \<and> (2::nat) < nat 3" by simp_all
  with h have "history s2 ! 1 = (int 1, int 1 + 1, ''IDLE'')" "history s2 ! 2 = (int 2, int 2 + 1, ''IDLE'')"
    by blast+
  then have "history s2 ! 1 = (1, 2, ''IDLE'')" "history s2 ! 2 = (2, 3, ''IDLE'')" by simp_all
  then have W3: "\<exists>s ts. run EDF Scheduler_init ?B 3 = Inr (s, ts) \<and>
      completed_tasks s = [0] \<and>
      history s ! 1 = (1, 2, ''IDLE'') \<and> history s ! 2 = (2, 3, ''IDLE'')"
    using r2 c2 ck by simp
  from p W1 W2 W3 show ?thesis by (intro conjI)
qed

text \<open>
  The claim as it is stated fails.  A single task of burst 1 completes in the step of
  unit 0 (its completion time is 1, it is the whole task set); with \<open>max_time = 3\<close> the
  loop goes on and two more history entries are produced, for the units 1 and 2.
\<close>

theorem early_stop_counterexample:
  "\<not> isl (run EDF Scheduler_init (make_tasks [(''T'', 0, 1, 5, 0)]) 3) \<and>
   completed_tasks (fst (projr (run EDF Scheduler_init (make_tasks [(''T'', 0, 1, 5, 0)]) 3))) = [0] \<and>
   length (snd (projr (run EDF Scheduler_init (make_tasks [(''T'', 0, 1, 5, 0)]) 3))) = 1 \<and>
   completion_time (snd (projr (run EDF Scheduler_init (make_tasks [(''T'', 0, 1, 5, 0)]) 3)) ! 0) = 1 \<and>
   time (fst (projr (run EDF Scheduler_init (make_tasks [(''T'', 0, 1, 5, 0)]) 3))) = 3 \<and>
   history (fst (projr (run EDF Scheduler_init (make_tasks [(''T'', 0, 1, 5, 0)]) 3)))
     = [(0, 1, ''T''), (1, 2, ''IDLE''), (2, 3, ''IDLE'')]"
  by code_simp

text \<open>
  Claim C8, under the conditions that the code needs.  The constructor accepts any burst
  time and any identifier, and the idle entries carry the string \<open>"IDLE"\<close>.  For task sets
  with positive burst times and pairwise distinct identifiers other than \<open>"IDLE"\<close>: after a run of the EDF or RMS scheduler from a new scheduler object,
  the remaining time of every task is \<open>\<ge> 0\<close> and equals its burst time minus the number of
  history entries that bear its identifier; it is zero exactly when the task is in the
  list of completed tasks; and it never increases during the run: the run with bound
  \<open>max_time\<close> passes through the final state of the run with any bound \<open>k \<le> max_time\<close>
  (lemma \<open>run_loop_split\<close>), and the remaining time after \<open>max_time\<close> is at most the
  remaining time after \<open>k\<close>, which is at most the burst time.
\<close>

theorem remaining_time_accounting:
  assumes pol: "pol \<noteq> Abstract"
    and burst: "\<forall>t\<in>set (make_tasks specs). 0 < burst_time t"
    and ids: "distinct (map task_id (make_tasks specs))"
    and idle: "''IDLE'' \<notin> task_id ` set (make_tasks specs)"
    and k: "k \<le> max_time"
  shows "\<exists>s ts sk tsk.
           run pol Scheduler_init (make_tasks specs) max_time = Inr (s, ts) \<and>
           run pol Scheduler_init (make_tasks specs) k = Inr (sk, tsk) \<and>
           map static ts = map static (sort_key arrival_time (make_tasks specs)) \<and>
           length tsk = length ts \<and>
           (\<forall>i<length ts.
              0 \<le> remaining_time (ts ! i) \<and>
              remaining_time (ts ! i) =
                burst_time (ts ! i) -
                int (length (filter (\<lambda>e. snd (snd e) = task_id (ts ! i)) (history s))) \<and>
              remaining_time (ts ! i) \<le> remaining_time (tsk ! i) \<and>
              remaining_time (tsk ! i) \<le> burst_time (ts ! i) \<and>
              (remaining_time (ts ! i) = 0 \<longleftrightarrow> i \<in> set (completed_tasks s)))"
proof -
  define ts0 where "ts0 = sort_key arrival_time (make_tasks specs)"
  define st0 where "st0 = (Scheduler_init, ts0, 0::nat)"
  from run_make_tasks_invs [OF pol, of specs k] burst ids idle obtain sk tsk ik where
    rk: "run_loop pol st0 k = Inr (sk, tsk, ik)"
    and rk': "run pol Scheduler_init (make_tasks specs) k = Inr (sk, tsk)"
    and lik: "loop_inv (sk, tsk, ik)" and hik: "hinv ts0 (sk, tsk, ik)"
    and tik: "tinv (sk, tsk, ik)" and pik: "pinv (sk, tsk, ik)"
    unfolding st0_def ts0_def by blast
  have set0: "set ts0 = set (make_tasks specs)" by (simp add: ts0_def)
  have "mset (map task_id ts0) = mset (map task_id (make_tasks specs))" by (simp add: ts0_def)
  then have d0: "distinct (map task_id ts0)" using ids mset_eq_imp_distinct_iff by blast
  from run_loop_invs [OF pol lik hik tik, of max_time] d0 idle set0 pik
  obtain st' where r: "run_loop pol (sk, tsk, ik) max_time = Inr st'"
    "hinv ts0 st'" "tinv st'" "mono_from tsk st'" "pinv st'"
    by auto
  obtain s ts i where st': "st' = (s, ts, i)" by (cases st')
  have "run_loop pol st0 max_time = Inr (s, ts, i)"
    using run_loop_split [OF k, of pol st0] rk r(1) st' by simp
  then have A: "run pol Scheduler_init (make_tasks specs) max_time = Inr (s, ts)"
    by (simp add: run_def st0_def ts0_def)
  have B: "map static ts = map static ts0" using r(2) st' by (simp add: hinv_def)
  have Bk: "map static tsk = map static ts0" using hik by (simp add: hinv_def)
  note t = r(3) [unfolded st' tinv_def prod.case]
  note p = r(5) [unfolded st' pinv_def prod.case]
  note pk = pik [unfolded pinv_def prod.case]
  note m = r(4) [unfolded st' mono_from_def prod.case]
  have len: "length tsk = length ts" using m by simp
  have C: "0 \<le> remaining_time (ts ! j) \<and>
      remaining_time (ts ! j) =
        burst_time (ts ! j) - int (length (filter (\<lambda>e. snd (snd e) = task_id (ts ! j)) (history s))) \<and>
      remaining_time (ts ! j) \<le> remaining_time (tsk ! j) \<and>
      remaining_time (tsk ! j) \<le> burst_time (ts ! j) \<and>
      (remaining_time (ts ! j) = 0 \<longleftrightarrow> j \<in> set (completed_tasks s))"
    if j: "j < length ts" for j
  proof -
    have c1: "j \<in> set (completed_tasks s) \<Longrightarrow> remaining_time (ts ! j) = 0" using t by blast
    have c2: "j \<notin> set (completed_tasks s) \<Longrightarrow> 0 < remaining_time (ts ! j)" using p j by blast
    have c3: "remaining_time (ts ! j) =
        burst_time (ts ! j) - int (length (filter (\<lambda>e. snd (snd e) = task_id (ts ! j)) (history s)))"
      using p j by blast
    have c4: "remaining_time (ts ! j) \<le> remaining_time (tsk ! j)" using m j by simp
    have "static (ts ! j) = static (tsk ! j)"
      using B Bk j len by (metis length_map nth_map)
    then have "burst_time (tsk ! j) = burst_time (ts ! j)" by (simp add: static_def)
    moreover have "remaining_time (tsk ! j) =
        burst_time (tsk ! j) - int (length (filter (\<lambda>e. snd (snd e) = task_id (tsk ! j)) (history sk)))"
      using pk j len by simp
    ultimately have c5: "remaining_time (tsk ! j) \<le> burst_time (ts ! j)" by simp
    show ?thesis using c1 c2 c3 c4 c5 by (cases "j \<in> set (completed_tasks s)") auto
  qed
  show ?thesis using A rk' B len C unfolding ts0_def by blast
qed

theorem remaining_time_accounting_witness:
  "EDF \<noteq> Abstract \<and>
   list_all (\<lambda>t. 0 < burst_time t) (make_tasks [(''T1'', 0, 3, 10, 0), (''T2'', 1, 2, 4, 0)]) \<and>
   distinct (map task_id (make_tasks [(''T1'', 0, 3, 10, 0), (''T2'', 1, 2, 4, 0)])) \<and>
   ''IDLE'' \<notin> task_id ` set (make_tasks [(''T1'', 0, 3, 10, 0), (''T2'', 1, 2, 4, 0)]) \<and>
   (2::int) \<le> 4 \<and>
   (\<exists>s ts sk tsk.
      run EDF Scheduler_init (make_tasks [(''T1'', 0, 3, 10, 0), (''T2'', 1, 2, 4, 0)]) 4 = Inr (s, ts) \<and>
      run EDF Scheduler_init (make_tasks [(''T1'', 0, 3, 10, 0), (''T2'', 1, 2, 4, 0)]) 2 = Inr (sk, tsk) \<and>
      0 \<le> remaining_time (ts ! 0) \<and>
      remaining_time (ts ! 0) =
        burst_time (ts ! 0) - int (length (filter (\<lambda>e. snd (snd e) = task_id (ts ! 0)) (history s))) \<and>
      remaining_time (ts ! 0) \<le> remaining_time (tsk ! 0) \<and>
      (remaining_time (ts ! 0) = 0 \<longleftrightarrow> 0 \<in> set (completed_tasks s)))"
proof -
  have p: "EDF \<noteq> Abstract" by simp
  have b: "\<forall>t\<in>set (make_tasks [(''T1'', 0, 3, 10, 0), (''T2'', 1, 2, 4, 0)]). 0 < burst_time t"
    by (simp add: make_tasks_def Task_init_def)
  have d: "distinct (map task_id (make_tasks [(''T1'', 0, 3, 10, 0), (''T2'', 1, 2, 4, 0)]))"
    by (simp add: make_tasks_def Task_init_def)
  have n: "''IDLE'' \<notin> task_id ` set (make_tasks [(''T1'', 0, 3, 10, 0), (''T2'', 1, 2, 4, 0)])"
    by (simp add: make_tasks_def Task_init_def)
  have k: "(2::int) \<le> 4" by simp
  from remaining_time_accounting [OF p b d n k] obtain s ts sk tsk where
    r: "run EDF Scheduler_init (make_tasks [(''T1'', 0, 3, 10, 0), (''T2'', 1, 2, 4, 0)]) 4 = Inr (s, ts)"
       "run EDF Scheduler_init (make_tasks [(''T1'', 0, 3, 10, 0), (''T2'', 1, 2, 4, 0)]) 2 = Inr (sk, tsk)"
       "map static ts = map static (sort_key arrival_time (make_tasks [(''T1'', 0, 3, 10, 0), (''T2'', 1, 2, 4, 0)]))"
    and a: "\<forall>i<length ts.
              0 \<le> remaining_time (ts ! i) \<and>
              remaining_time (ts ! i) =
                burst_time (ts ! i) -
                int (length (filter (\<lambda>e. snd (snd e) = task_id (ts ! i)) (history s))) \<and>
              remaining_time (ts ! i) \<le> remaining_time (tsk ! i) \<and>
              remaining_time (tsk ! i) \<le> burst_time (ts ! i) \<and>
              (remaining_time (ts ! i) = 0 \<longleftrightarrow> i \<in> set (completed_tasks s))"
    by blast
  have "length (map static ts) = 2" unfolding r(3) by (simp add: make_tasks_def)
  then have "0 < length ts" by simp
  with a have "0 \<le> remaining_time (ts ! 0) \<and>
      remaining_time (ts ! 0) =
        burst_time (ts ! 0) - int (length (filter (\<lambda>e. snd (snd e) = task_id (ts ! 0)) (history s))) \<and>
      remaining_time (ts ! 0) \<le> remaining_time (tsk ! 0) \<and>
      (remaining_time (ts ! 0) = 0 \<longleftrightarrow> 0 \<in> set (completed_tasks s))"
    by blast
  moreover have "list_all (\<lambda>t. 0 < burst_time t) (make_tasks [(''T1'', 0, 3, 10, 0), (''T2'', 1, 2, 4, 0)])"
    using b by (simp add: list_all_iff)
  ultimately show ?thesis using r(1,2) p d n k by blast
qed

text \<open>
  Without these conditions the claim fails: a task constructed with burst 0 runs at
  every unit and its remaining time becomes negative; for a task named \<open>"IDLE"\<close> the
  idle entries are counted as its own; and of two tasks named \<open>"A"\<close> the first has
  remaining time 0 and burst 1 while two entries bear its identifier.
\<close>

theorem remaining_time_counterexample:
  "\<not> isl (run EDF Scheduler_init (make_tasks [(''Z'', 0, 0, 5, 0)]) 2) \<and>
   remaining_time (snd (projr (run EDF Scheduler_init (make_tasks [(''Z'', 0, 0, 5, 0)]) 2)) ! 0) = - 2 \<and>
   \<not> isl (run EDF Scheduler_init (make_tasks [(''IDLE'', 5, 1, 5, 0)]) 2) \<and>
   remaining_time (snd (projr (run EDF Scheduler_init (make_tasks [(''IDLE'', 5, 1, 5, 0)]) 2)) ! 0) = 1 \<and>
   burst_time (snd (projr (run EDF Scheduler_init (make_tasks [(''IDLE'', 5, 1, 5, 0)]) 2)) ! 0) = 1 \<and>
   length (filter (\<lambda>e. snd (snd e) = ''IDLE'')
     (history (fst (projr (run EDF Scheduler_init (make_tasks [(''IDLE'', 5, 1, 5, 0)]) 2))))) = 2 \<and>
   \<not> isl (run EDF Scheduler_init (make_tasks [(''A'', 0, 1, 5, 0), (''A'', 0, 2, 5, 0)]) 2) \<and>
   remaining_time (snd (projr (run EDF Scheduler_init (make_tasks [(''A'', 0, 1, 5, 0), (''A'', 0, 2, 5, 0)]) 2)) ! 0) = 0 \<and>
   burst_time (snd (projr (run EDF Scheduler_init (make_tasks [(''A'', 0, 1, 5, 0), (''A'', 0, 2, 5, 0)]) 2)) ! 0) = 1 \<and>
   length (filter (\<lambda>e. snd (snd e) = ''A'')
     (history (fst (projr (run EDF Scheduler_init (make_tasks [(''A'', 0, 1, 5, 0), (''A'', 0, 2, 5, 0)]) 2))))) = 2"
  by code_simp

text \<open>
  Claim C6.  In every scheduler state that arises from a new EDF or RMS scheduler by
  calls of \<open>add_task\<close> and \<open>get_next_task\<close> and whose ready queue is not empty,
  \<open>get_next_task\<close> removes one tuple from the queue and returns its task, and that tuple
  is strictly below every other queued tuple in the lexicographic order on (priority
  key, arrival time, sequence number); in particular, among tuples with the same
  priority key and the same arrival time, the one with the smaller sequence number is
  extracted.  The tuple that \<open>add_task\<close> inserts has the absolute deadline (EDF) or the
  period, or the relative deadline when the period is not positive (RMS), as its
  priority key, then the arrival time and the current sequence number.
\<close>

theorem extraction_returns_lexicographic_minimum:
  assumes "reach pol s cs" and "pol \<noteq> Abstract" and "ready_queue s \<noteq> []"
  shows "\<exists>e q'. get_next_task pol s = Inr (Some (ref e), s\<lparr>ready_queue := q'\<rparr>) \<and>
           e \<in> set (ready_queue s) \<and> mset (ready_queue s) = add_mset e (mset q') \<and>
           (\<forall>e'\<in>set (ready_queue s). e' \<noteq> e \<longrightarrow> lex_less e e') \<and>
           (\<forall>e'\<in>set (ready_queue s).
               e' \<noteq> e \<and> fst e' = fst e \<and> fst (snd e') = fst (snd e) \<longrightarrow> cnt e < cnt e') \<and>
           (\<forall>ts r. \<exists>s' ts'. add_task pol s ts r = Inr (s', ts') \<and>
               mset (ready_queue s') =
                 add_mset (priority pol (ts ! r), arrival_time (ts ! r), task_counter s, r)
                   (mset (ready_queue s))) \<and>
           priority EDF t = absolute_deadline t \<and>
           priority RMS t = (if period t > 0 then period t else deadline t)"
proof -
  from reach_inv [OF assms(1)] have ok: "queue_ok (ready_queue s) (task_counter s)" by blast
  define e where "e = ready_queue s ! 0"
  from get_next_task_char [OF assms(2) ok] assms(3) obtain q' where
    g: "get_next_task pol s = Inr (Some (ref e), s\<lparr>ready_queue := q'\<rparr>)"
      "mset (ready_queue s) = add_mset e (mset q')"
      "\<forall>x\<in>set (ready_queue s). key e \<le> key x"
    unfolding e_def by auto
  have mem: "e \<in> set (ready_queue s)" using assms(3) by (simp add: e_def)
  have inj: "inj_on key (set (ready_queue s))" using ok by (simp add: queue_ok_def distinct_map)
  have A: "lex_less e e'" if "e' \<in> set (ready_queue s)" "e' \<noteq> e" for e'
  proof -
    have "key e \<noteq> key e'" using inj that mem by (auto dest: inj_onD)
    moreover have "key e \<le> key e'" using g(3) that by blast
    ultimately show ?thesis by (simp add: lex_less_key)
  qed
  have B: "cnt e < cnt e'"
    if "e' \<in> set (ready_queue s)" "e' \<noteq> e" "fst e' = fst e" "fst (snd e') = fst (snd e)" for e'
    using A [OF that(1,2)] that(3,4) by (cases e; cases e') (simp add: lex_less_def cnt_def)
  have C: "\<exists>s' ts'. add_task pol s ts r = Inr (s', ts') \<and>
               mset (ready_queue s') =
                 add_mset (priority pol (ts ! r), arrival_time (ts ! r), task_counter s, r)
                   (mset (ready_queue s))" for ts r
    using add_task_char [OF assms(2) ok, of ts r] by auto
  have D: "priority EDF t = absolute_deadline t"
    "priority RMS t = (if period t > 0 then period t else deadline t)"
    by (simp_all add: priority_def)
  show ?thesis using g(1,2) mem A B C D by blast
qed

theorem extraction_returns_lexicographic_minimum_witness:
  "reach EDF \<lparr>time = 0, ready_queue = [(10, 0, 0, 0), (10, 0, 1, 1)], history = [],
       completed_tasks = [], missed_deadlines = 0, task_counter = 2\<rparr> [0, 1] \<and>
   EDF \<noteq> Abstract \<and>
   (\<exists>e q'. get_next_task EDF \<lparr>time = 0, ready_queue = [(10, 0, 0, 0), (10, 0, 1, 1)], history = [],
       completed_tasks = [], missed_deadlines = 0, task_counter = 2\<rparr>
        = Inr (Some (ref e), \<lparr>time = 0, ready_queue = q', history = [],
       completed_tasks = [], missed_deadlines = 0, task_counter = 2\<rparr>) \<and>
      lex_less e (10, 0, 1, 1))"
proof -
  let ?T0 = "make_tasks [(''T1'', 0, 3, 10, 0), (''T2'', 0, 2, 10, 0)]"
  let ?S1 = "\<lparr>time = 0, ready_queue = [(10, 0, 0, 0)], history = [],
       completed_tasks = [], missed_deadlines = 0, task_counter = 1\<rparr>"
  let ?T1 = "[Task_init ''T1'' 0 3 10 0, Task_init ''T2'' 0 2 10 0]"
  let ?S2 = "\<lparr>time = 0, ready_queue = [(10, 0, 0, 0), (10, 0, 1, 1)], history = [],
       completed_tasks = [], missed_deadlines = 0, task_counter = 2\<rparr>"
  let ?T2 = "[Task_init ''T1'' 0 3 10 0, (Task_init ''T2'' 0 2 10 0)\<lparr>counter := 1\<rparr>]"
  have a1: "add_task EDF Scheduler_init ?T0 0 = Inr (?S1, ?T1)" by code_simp
  have a2: "add_task EDF ?S1 ?T1 1 = Inr (?S2, ?T2)" by code_simp
  have l0: "0 < length ?T0" by (simp add: make_tasks_def)
  have l1: "1 < length ?T1" by simp
  have "reach EDF ?S1 ([] @ [counter (?T1 ! 0)])"
    by (rule reach.add [OF reach.init l0 a1])
  from reach.add [OF this l1 a2] have r: "reach EDF ?S2 [0, 1]" by (simp add: Task_init_def)
  have p: "EDF \<noteq> Abstract" by simp
  have n: "ready_queue ?S2 \<noteq> []" by simp
  from extraction_returns_lexicographic_minimum [OF r p n] obtain e q' where
    g: "get_next_task EDF ?S2 = Inr (Some (ref e), ?S2\<lparr>ready_queue := q'\<rparr>)"
    "e \<in> set (ready_queue ?S2)" "mset (ready_queue ?S2) = add_mset e (mset q')"
    "\<forall>e'\<in>set (ready_queue ?S2). e' \<noteq> e \<longrightarrow> lex_less e e'"
    by blast
  have "e \<noteq> (10, 0, 1, 1)"
  proof
    assume e: "e = (10, 0, 1, 1)"
    then have "lex_less e (10, 0, 0, 0)" using g(4) by simp
    then show False using e by (simp add: lex_less_def)
  qed
  then have l: "lex_less e (10, 0, 1, 1)" using g(4) by simp
  show ?thesis
  proof (intro conjI exI)
    show "reach EDF ?S2 [0, 1]" by (rule r)
    show "EDF \<noteq> Abstract" by simp
    show "get_next_task EDF ?S2 = Inr (Some (ref e), \<lparr>time = 0, ready_queue = q', history = [],
       completed_tasks = [], missed_deadlines = 0, task_counter = 2\<rparr>)"
      using g(1) by simp
    show "lex_less e (10, 0, 1, 1)" by (rule l)
  qed
qed

text \<open>
  Claim C10.  In every such state: the sequence numbers assigned by the insertions so
  far are strictly increasing and below the scheduler's counter, the next insertion
  (admission or re-insertion) assigns the counter's current value and increments it;
  the counter of every queued tuple is one of those numbers and the queued (priority,
  arrival, counter) triples are pairwise distinct; hence \<open><\<close> on any two queued tuples
  is decided by these three components and never reaches the task objects, and
  \<open>add_task\<close> and \<open>get_next_task\<close> return without raising.  A run from a new scheduler
  object never raises.
\<close>

theorem insertion_counters_strictly_increase:
  assumes "reach pol s cs" and "pol \<noteq> Abstract"
  shows "sorted_wrt (<) cs \<and> (\<forall>c\<in>set cs. c < task_counter s) \<and>
         (\<forall>e\<in>set (ready_queue s). cnt e \<in> set cs) \<and>
         distinct (map key (ready_queue s)) \<and>
         (\<forall>a\<in>set (ready_queue s). \<forall>b\<in>set (ready_queue s). entry_lt a b = Inr (lex_less a b)) \<and>
         (\<forall>ts r. r < length ts \<longrightarrow>
            (\<exists>s' ts'. add_task pol s ts r = Inr (s', ts') \<and> counter (ts' ! r) = task_counter s \<and>
               task_counter s' = task_counter s + 1 \<and> reach pol s' (cs @ [task_counter s]))) \<and>
         (\<exists>cur s'. get_next_task pol s = Inr (cur, s') \<and> reach pol s' cs) \<and>
         (\<exists>s' ts'. run pol Scheduler_init tasks max_time = Inr (s', ts'))"
proof -
  from reach_inv [OF assms(1)] have ok: "queue_ok (ready_queue s) (task_counter s)"
    and tc: "0 \<le> task_counter s" and cs: "cs = map int [0..<nat (task_counter s)]"
    and nn: "\<forall>e\<in>set (ready_queue s). 0 \<le> cnt e" by blast+
  have A: "sorted_wrt (<) cs"
    by (subst cs) (simp add: sorted_wrt_map sorted_wrt_iff_nth_less)
  have setcs: "set cs = {c. 0 \<le> c \<and> c < task_counter s}"
  proof -
    have "set cs = int ` {0..<nat (task_counter s)}" by (subst cs) simp
    also have "\<dots> = {c. 0 \<le> c \<and> c < task_counter s}"
    proof (intro set_eqI iffI)
      fix c assume "c \<in> int ` {0..<nat (task_counter s)}"
      then show "c \<in> {c. 0 \<le> c \<and> c < task_counter s}" by auto
    next
      fix c assume "c \<in> {c. 0 \<le> c \<and> c < task_counter s}"
      then have "c = int (nat c)" "nat c \<in> {0..<nat (task_counter s)}" by auto
      then show "c \<in> int ` {0..<nat (task_counter s)}" by (rule image_eqI)
    qed
    finally show ?thesis .
  qed
  have B: "\<forall>c\<in>set cs. c < task_counter s" using setcs by simp
  have C: "\<forall>e\<in>set (ready_queue s). cnt e \<in> set cs"
    using setcs nn ok by (simp add: queue_ok_def)
  have D: "distinct (map key (ready_queue s))" using ok by (simp add: queue_ok_def)
  have E: "\<forall>a\<in>set (ready_queue s). \<forall>b\<in>set (ready_queue s). entry_lt a b = Inr (lex_less a b)"
    using queue_ok_entry_lt [OF ok] by blast
  have F: "\<exists>s' ts'. add_task pol s ts r = Inr (s', ts') \<and> counter (ts' ! r) = task_counter s \<and>
               task_counter s' = task_counter s + 1 \<and> reach pol s' (cs @ [task_counter s])"
    if r: "r < length ts" for ts r
  proof -
    from add_task_char [OF assms(2) ok, of ts r] obtain q' where
      a: "add_task pol s ts r =
             Inr (s\<lparr>task_counter := task_counter s + 1, ready_queue := q'\<rparr>,
                  ts[r := (ts ! r)\<lparr>counter := task_counter s\<rparr>])"
      by blast
    have c: "counter (ts[r := (ts ! r)\<lparr>counter := task_counter s\<rparr>] ! r) = task_counter s"
      using r by simp
    from reach.add [OF assms(1) r a]
    have "reach pol (s\<lparr>task_counter := task_counter s + 1, ready_queue := q'\<rparr>) (cs @ [task_counter s])"
      unfolding c .
    then show ?thesis using a c by simp
  qed
  have G: "\<exists>cur s'. get_next_task pol s = Inr (cur, s') \<and> reach pol s' cs"
  proof -
    from get_next_task_char [OF assms(2) ok] obtain cur s' where
      g: "get_next_task pol s = Inr (cur, s')" by (auto split: if_splits)
    from reach.pop [OF assms(1) g] g show ?thesis by blast
  qed
  have H: "\<exists>s' ts'. run pol Scheduler_init tasks max_time = Inr (s', ts')"
    using run_total [OF assms(2), of tasks max_time] by blast
  show ?thesis using A B C D E F G H by blast
qed

theorem insertion_counters_strictly_increase_witness:
  "reach RMS \<lparr>time = 0, ready_queue = [(5, 0, 0, 0)], history = [],
       completed_tasks = [], missed_deadlines = 0, task_counter = 1\<rparr> [0] \<and>
   RMS \<noteq> Abstract \<and>
   (\<exists>s' ts'. add_task RMS \<lparr>time = 0, ready_queue = [(5, 0, 0, 0)], history = [],
       completed_tasks = [], missed_deadlines = 0, task_counter = 1\<rparr>
         [Task_init ''T1'' 0 3 10 5] 0 = Inr (s', ts') \<and> counter (ts' ! 0) = 1 \<and>
       task_counter s' = 2 \<and> reach RMS s' [0, 1])"
proof -
  let ?T0 = "[Task_init ''T1'' 0 3 10 5]"
  let ?S1 = "\<lparr>time = 0, ready_queue = [(5, 0, 0, 0)], history = [],
       completed_tasks = [], missed_deadlines = 0, task_counter = 1\<rparr>"
  have a1: "add_task RMS Scheduler_init ?T0 0 = Inr (?S1, ?T0)" by code_simp
  have l0: "0 < length ?T0" by simp
  from reach.add [OF reach.init l0 a1] have r: "reach RMS ?S1 [0]" by (simp add: Task_init_def)
  have p: "RMS \<noteq> Abstract" by simp
  from insertion_counters_strictly_increase [OF r p, of "[]" 0]
  have "\<forall>ts r. r < length ts \<longrightarrow>
            (\<exists>s' ts'. add_task RMS ?S1 ts r = Inr (s', ts') \<and> counter (ts' ! r) = task_counter ?S1 \<and>
               task_counter s' = task_counter ?S1 + 1 \<and> reach RMS s' ([0] @ [task_counter ?S1]))"
    by blast
  with l0 have "\<exists>s' ts'. add_task RMS ?S1 ?T0 0 = Inr (s', ts') \<and> counter (ts' ! 0) = task_counter ?S1 \<and>
               task_counter s' = task_counter ?S1 + 1 \<and> reach RMS s' ([0] @ [task_counter ?S1])"
    by blast
  then have "\<exists>s' ts'. add_task RMS ?S1 ?T0 0 = Inr (s', ts') \<and> counter (ts' ! 0) = 1 \<and>
               task_counter s' = 2 \<and> reach RMS s' [0, 1]"
    by simp
  with r p show ?thesis by blast
qed

text \<open>
  Claim C2, as the code has it.  \<open>Task.__init__\<close> checks nothing: it stores the burst
  time, the relative deadline and the arrival time that it is given, whatever their
  sign, and it agrees with the constructor of the specification on the parameters
  that the specification accepts.  A run of the EDF or RMS scheduler from a new
  scheduler object raises no error, for any list of tasks, well-formed or not.
\<close>

theorem construction_and_run_never_raise:
  assumes "pol \<noteq> Abstract"
  shows "burst_time (Task_init tid a b d p) = b \<and> deadline (Task_init tid a b d p) = d \<and>
         arrival_time (Task_init tid a b d p) = a \<and>
         (0 < b \<and> 0 < d \<and> 0 \<le> a \<longrightarrow> create_task_spec tid a b d p = Inr (Task_init tid a b d p)) \<and>
         (\<exists>s ts. run pol Scheduler_init tasks max_time = Inr (s, ts))"
proof -
  have "\<exists>s ts. run pol Scheduler_init tasks max_time = Inr (s, ts)"
    using run_total [OF assms, of tasks max_time] by blast
  then show ?thesis by (simp add: Task_init_def create_task_spec_def)
qed

theorem construction_and_run_never_raise_witness:
  "EDF \<noteq> Abstract \<and> burst_time (Task_init ''T'' (- 1) 0 0 0) = 0 \<and>
   create_task_spec ''T1'' 0 3 10 0 = Inr (Task_init ''T1'' 0 3 10 0) \<and>
   (\<exists>s ts. run EDF Scheduler_init [Task_init ''T'' (- 1) 0 0 0] 3 = Inr (s, ts))"
proof -
  have p: "EDF \<noteq> Abstract" by simp
  from construction_and_run_never_raise [OF p, of "''T''" "- 1" 0 0 0 "[Task_init ''T'' (- 1) 0 0 0]" 3]
  have 1: "burst_time (Task_init ''T'' (- 1) 0 0 0) = 0"
    and 2: "\<exists>s ts. run EDF Scheduler_init [Task_init ''T'' (- 1) 0 0 0] 3 = Inr (s, ts)"
    by blast+
  from construction_and_run_never_raise [OF p, of "''T1''" 0 3 10 0 "[]" 0]
  have 3: "create_task_spec ''T1'' 0 3 10 0 = Inr (Task_init ''T1'' 0 3 10 0)" by simp
  from p 1 2 3 show ?thesis by blast
qed

text \<open>
  The claim as it is stated fails: for burst 0, relative deadline 0 and arrival \<open>-1\<close> the
  specification's constructor fails with \<open>InvalidTask\<close>, the constructor of the source
  returns a task with these values.
\<close>

theorem invalid_task_counterexample:
  "create_task_spec ''T'' (- 1) 0 0 0 = Inl InvalidTask \<and>
   create_task_spec ''T'' (- 1) 0 0 0 \<noteq> Inr (Task_init ''T'' (- 1) 0 0 0) \<and>
   burst_time (Task_init ''T'' (- 1) 0 0 0) = 0 \<and>
   deadline (Task_init ''T'' (- 1) 0 0 0) = 0 \<and>
   arrival_time (Task_init ''T'' (- 1) 0 0 0) = - 1"
  by (simp add: create_task_spec_def Task_init_def)

text \<open>
  Claim C7.  The result of a run does not depend on how the priority queue arranges its
  items.  For the EDF or RMS policy, the run of the code on a new scheduler object and
  tasks constructed from given arguments returns, and its result is a run of the
  scheduler over any priority queue; and any two such runs, with the same policy, the
  same \<open>max_time\<close> and tasks constructed from the same arguments, end with the same
  history, the same list of completed tasks, the same count of missed deadlines, the
  same clock and the same final state of the tasks, and with the same items in their
  ready queues.
\<close>

theorem run_deterministic:
  assumes "pol \<noteq> Abstract"
  shows "(\<exists>r. run pol Scheduler_init (make_tasks specs) max_time = Inr r \<and>
              run_any pol Scheduler_init (make_tasks specs) max_time r) \<and>
         (\<forall>r1 r2. run_any pol Scheduler_init (make_tasks specs) max_time r1 \<and>
                  run_any pol Scheduler_init (make_tasks specs) max_time r2 \<longrightarrow>
            history (fst r2) = history (fst r1) \<and>
            completed_tasks (fst r2) = completed_tasks (fst r1) \<and>
            map (\<lambda>i. task_id (snd r2 ! i)) (completed_tasks (fst r2)) =
              map (\<lambda>i. task_id (snd r1 ! i)) (completed_tasks (fst r1)) \<and>
            missed_deadlines (fst r2) = missed_deadlines (fst r1) \<and>
            time (fst r2) = time (fst r1) \<and>
            task_counter (fst r2) = task_counter (fst r1) \<and>
            mset (ready_queue (fst r2)) = mset (ready_queue (fst r1)) \<and>
            snd r2 = snd r1)"
proof -
  from run_total [OF assms, of "make_tasks specs" max_time] obtain s ts where
    r: "run pol Scheduler_init (make_tasks specs) max_time = Inr (s, ts)" by blast
  from run_refines [OF assms r]
  have A: "\<exists>r. run pol Scheduler_init (make_tasks specs) max_time = Inr r \<and>
              run_any pol Scheduler_init (make_tasks specs) max_time r"
    using r by blast
  have B: "history (fst r2) = history (fst r1) \<and>
            completed_tasks (fst r2) = completed_tasks (fst r1) \<and>
            map (\<lambda>i. task_id (snd r2 ! i)) (completed_tasks (fst r2)) =
              map (\<lambda>i. task_id (snd r1 ! i)) (completed_tasks (fst r1)) \<and>
            missed_deadlines (fst r2) = missed_deadlines (fst r1) \<and>
            time (fst r2) = time (fst r1) \<and>
            task_counter (fst r2) = task_counter (fst r1) \<and>
            mset (ready_queue (fst r2)) = mset (ready_queue (fst r1)) \<and>
            snd r2 = snd r1"
    if "run_any pol Scheduler_init (make_tasks specs) max_time r1"
      and "run_any pol Scheduler_init (make_tasks specs) max_time r2" for r1 r2
  proof -
    from run_any_det [OF that] have "sim (fst r1) (fst r2)" "snd r2 = snd r1" by simp_all
    then show ?thesis by (simp add: sim_def)
  qed
  from A B show ?thesis by blast
qed

theorem run_deterministic_witness:
  "EDF \<noteq> Abstract \<and>
   (\<exists>r1 r2.
      run EDF Scheduler_init
        (make_tasks [(''A'', 0, 1, 5, 0), (''B'', 0, 1, 3, 0), (''C'', 0, 1, 4, 0)]) 1 = Inr r1 \<and>
      run_any EDF Scheduler_init
        (make_tasks [(''A'', 0, 1, 5, 0), (''B'', 0, 1, 3, 0), (''C'', 0, 1, 4, 0)]) 1 r1 \<and>
      run_any EDF Scheduler_init
        (make_tasks [(''A'', 0, 1, 5, 0), (''B'', 0, 1, 3, 0), (''C'', 0, 1, 4, 0)]) 1 r2 \<and>
      ready_queue (fst r1) = [(4, 0, 2, 2), (5, 0, 0, 0)] \<and>
      ready_queue (fst r2) = [(5, 0, 0, 0), (4, 0, 2, 2)] \<and>
      history (fst r1) = [(0, 1, ''B'')] \<and>
      history (fst r2) = history (fst r1) \<and>
      completed_tasks (fst r2) = completed_tasks (fst r1) \<and>
      missed_deadlines (fst r2) = missed_deadlines (fst r1) \<and>
      snd r2 = snd r1)"
proof -
  have p: "EDF \<noteq> Abstract" by simp
  let ?T = "make_tasks [(''A'', 0, 1, 5, 0), (''B'', 0, 1, 3, 0), (''C'', 0, 1, 4, 0)]"
  from run_deterministic [OF p, of "[(''A'', 0, 1, 5, 0), (''B'', 0, 1, 3, 0), (''C'', 0, 1, 4, 0)]" 1]
  obtain r where r: "run EDF Scheduler_init ?T 1 = Inr r"
    and a: "run_any EDF Scheduler_init ?T 1 r"
    and d: "\<forall>r1 r2. run_any EDF Scheduler_init ?T 1 r1 \<and> run_any EDF Scheduler_init ?T 1 r2 \<longrightarrow>
            history (fst r2) = history (fst r1) \<and>
            completed_tasks (fst r2) = completed_tasks (fst r1) \<and>
            map (\<lambda>i. task_id (snd r2 ! i)) (completed_tasks (fst r2)) =
              map (\<lambda>i. task_id (snd r1 ! i)) (completed_tasks (fst r1)) \<and>
            missed_deadlines (fst r2) = missed_deadlines (fst r1) \<and>
            time (fst r2) = time (fst r1) \<and>
            task_counter (fst r2) = task_counter (fst r1) \<and>
            mset (ready_queue (fst r2)) = mset (ready_queue (fst r1)) \<and>
            snd r2 = snd r1"
    by blast
  have "ready_queue (fst (projr (run EDF Scheduler_init ?T 1))) = [(4, 0, 2, 2), (5, 0, 0, 0)] \<and>
      history (fst (projr (run EDF Scheduler_init ?T 1))) = [(0, 1, ''B'')]"
    by code_simp
  then have q: "ready_queue (fst r) = [(4, 0, 2, 2), (5, 0, 0, 0)]"
    and h: "history (fst r) = [(0, 1, ''B'')]" using r by simp_all
  define r2 where "r2 = ((fst r)\<lparr>ready_queue := [(5, 0, 0, 0), (4, 0, 2, 2)]\<rparr>, snd r)"
  have t0: "time Scheduler_init < 1" by (simp add: Scheduler_init_def)
  have m: "mset [(5, 0, 0, 0), (4, 0, 2, 2)] = mset (ready_queue (fst r))"
    unfolding q by simp
  have "run_any EDF Scheduler_init ?T 1 (fst r, snd r)" using a by simp
  from run_any_arrange [OF this t0 m] have a2: "run_any EDF Scheduler_init ?T 1 r2"
    unfolding r2_def .
  have q2: "ready_queue (fst r2) = [(5, 0, 0, 0), (4, 0, 2, 2)]" by (simp add: r2_def)
  from d a a2 have e: "history (fst r2) = history (fst r)"
    "completed_tasks (fst r2) = completed_tasks (fst r)"
    "missed_deadlines (fst r2) = missed_deadlines (fst r)" "snd r2 = snd r"
    by blast+
  from p r a a2 q q2 h e show ?thesis by blast
qed

text \<open>
  Claim C9.  \<open>run\<close> sorts the caller's list in place: when the run of the EDF or RMS
  scheduler returns (its value is the history), the caller's list holds the same tasks
  in ascending order of arrival time, in the order of a stable sort of the list that
  was supplied; and there are lists whose order is changed by the call.
\<close>

theorem run_sorts_callers_list:
  assumes "pol \<noteq> Abstract"
  shows "(\<exists>s ts. run pol Scheduler_init tasks max_time = Inr (s, ts) \<and>
            map static ts = map static (sort_key arrival_time tasks) \<and>
            sorted (map arrival_time ts) \<and>
            mset (map static ts) = mset (map static tasks)) \<and>
         (\<exists>tasks' s ts. run pol Scheduler_init tasks' max_time = Inr (s, ts) \<and>
            map task_id ts \<noteq> map task_id tasks')"
proof -
  have A: "\<exists>s ts. run pol Scheduler_init xs max_time = Inr (s, ts) \<and>
            map static ts = map static (sort_key arrival_time xs) \<and>
            sorted (map arrival_time ts) \<and>
            mset (map static ts) = mset (map static xs)" for xs
  proof -
    from run_total [OF assms, of xs max_time] obtain s ts where
      r: "run pol Scheduler_init xs max_time = Inr (s, ts)"
      "map static ts = map static (sort_key arrival_time xs)" by blast
    have "map arrival_time ts = map (fst \<circ> snd) (map static ts)"
      by (simp add: static_def comp_def)
    also have "\<dots> = map (fst \<circ> snd) (map static (sort_key arrival_time xs))" using r(2) by simp
    also have "\<dots> = map arrival_time (sort_key arrival_time xs)" by (simp add: static_def comp_def)
    finally have "sorted (map arrival_time ts)" by simp
    moreover have "mset (map static ts) = mset (map static xs)" using r(2) by simp
    ultimately show ?thesis using r by blast
  qed
  define ys where "ys = [Task_init ''B'' 1 1 5 0, Task_init ''A'' 0 1 5 0]"
  from A [of ys] obtain s ts where
    r: "run pol Scheduler_init ys max_time = Inr (s, ts)"
    "map static ts = map static (sort_key arrival_time ys)" by blast
  have "map task_id ts = map task_id (sort_key arrival_time ys)"
    using r(2) by (rule static_task_id)
  then have "map task_id ts = [''A'', ''B'']" by (simp add: ys_def Task_init_def)
  then have "map task_id ts \<noteq> map task_id ys" by (simp add: ys_def Task_init_def)
  with r(1) A [of tasks] show ?thesis by blast
qed

theorem run_sorts_callers_list_witness:
  "EDF \<noteq> Abstract \<and>
   (\<exists>s ts. run EDF Scheduler_init [Task_init ''B'' 1 1 5 0, Task_init ''A'' 0 1 5 0] 2 = Inr (s, ts) \<and>
      map task_id ts = [''A'', ''B''] \<and> sorted (map arrival_time ts))"
proof -
  have p: "EDF \<noteq> Abstract" by simp
  from run_sorts_callers_list [OF p, of "[Task_init ''B'' 1 1 5 0, Task_init ''A'' 0 1 5 0]" 2]
  obtain s ts where
    r: "run EDF Scheduler_init [Task_init ''B'' 1 1 5 0, Task_init ''A'' 0 1 5 0] 2 = Inr (s, ts)"
    "map static ts = map static (sort_key arrival_time [Task_init ''B'' 1 1 5 0, Task_init ''A'' 0 1 5 0])"
    "sorted (map arrival_time ts)"
    by blast
  have "map task_id ts = map task_id (sort_key arrival_time [Task_init ''B'' 1 1 5 0, Task_init ''A'' 0 1 5 0])"
    using r(2) by (rule static_task_id)
  then have i: "map task_id ts = [''A'', ''B'']" by (simp add: Task_init_def)
  have "\<exists>s ts. run EDF Scheduler_init [Task_init ''B'' 1 1 5 0, Task_init ''A'' 0 1 5 0] 2 = Inr (s, ts) \<and>
      map task_id ts = [''A'', ''B''] \<and> sorted (map arrival_time ts)"
    by (intro exI conjI) (rule r(1), rule i, rule r(3))
  with p show ?thesis ..
qed

end
